theory Spec2Isabelle
  imports Complex_Main "HOL-Library.AList"
begin

section \<open>Data model\<close>

text \<open>
  The OneBot API returns JSON objects that the Python code reads with \<open>dict.get\<close>.
  A key of such an object is absent, present with the value null, or present with a value.
\<close>

datatype 'a jfield = Absent | Null | Val 'a

text \<open>\<open>d.get(k, "") or ""\<close>: absent, null and the empty string all read as the empty string.\<close>

definition get_or_empty :: "string jfield \<Rightarrow> string" where
  "get_or_empty f = (case f of Absent \<Rightarrow> '''' | Null \<Rightarrow> '''' | Val s \<Rightarrow> s)"

text \<open>\<open>d.get(k, default)\<close>: only an absent key reads as the default; null stays \<open>None\<close>.\<close>

definition get_default :: "'a jfield \<Rightarrow> 'a \<Rightarrow> 'a option" where
  "get_default f d = (case f of Absent \<Rightarrow> Some d | Null \<Rightarrow> None | Val s \<Rightarrow> Some s)"

text \<open>\<open>x or ""\<close> on an optional string column.\<close>

definition or_empty :: "string option \<Rightarrow> string" where
  "or_empty x = (case x of None \<Rightarrow> '''' | Some s \<Rightarrow> s)"

text \<open>
  One element of the member list returned by \<open>get_group_member_list\<close>. Every element is
  taken to carry its \<open>user_id\<close>; the other keys are read with \<open>dict.get\<close>.
\<close>

record GroupMemberInfo =
  m_user_id :: int
  m_nickname :: "string jfield"
  m_card :: "string jfield"
  m_title :: "string jfield"
  m_role :: "string jfield"

text \<open>A row of the table \<open>members\<close> (class \<open>Member\<close>), as far as the diff reads it.\<close>

record Member =
  mem_user_id :: int
  mem_nickname :: string
  mem_card :: "string option"

text \<open>
  A row of the table \<open>backup_members\<close> (class \<open>BackupMember\<close>); \<open>card\<close> and \<open>title\<close> are
  nullable columns. The field \<open>card\<close> is named \<open>card_f\<close> here.
\<close>

record BackupMember =
  user_id :: int
  nickname :: string
  card_f :: "string option"
  role :: string
  title :: "string option"

text \<open>
  A Python dict with integer keys is an association list with distinct keys;
  a dict comprehension inserts the entries from left to right and a later entry
  replaces an earlier one with the same key.
\<close>

type_synonym 'v dict = "(int \<times> 'v) list"

definition dict_by :: "('a \<Rightarrow> int) \<Rightarrow> 'a list \<Rightarrow> 'a dict" where
  "dict_by key xs = foldl (\<lambda>d x. AList.update (key x) x d) [] xs"

definition keys :: "'v dict \<Rightarrow> int set" where
  "keys d = set (map fst d)"

text \<open>
  Python iterates over a set in an order the language does not fix. The lists that the
  source builds by iterating over a set are built here in increasing key order; the
  theorems below speak about their elements only.
\<close>

definition set_iter :: "int set \<Rightarrow> int list" where
  "set_iter A = sorted_list_of_set A"

section \<open>Diff engine (\<open>backup_manager.py\<close>)\<close>

text \<open>
  The diff inside \<open>BackupManager.backup_group\<close>: \<open>old_rows\<close> are the rows of the member table
  that \<open>_get_current_members\<close> turns into a dict, \<open>members_data\<close> is the freshly fetched list.
\<close>

definition get_current_members :: "Member list \<Rightarrow> Member dict" where
  "get_current_members rows = dict_by mem_user_id rows"

record group_diff =
  joined_ids :: "int set"
  left_ids :: "int set"

definition backup_group_diff :: "Member list \<Rightarrow> GroupMemberInfo list \<Rightarrow> group_diff" where
  "backup_group_diff old_rows members_data =
    (let old_members = get_current_members old_rows;
         old_user_ids = keys old_members;
         new_user_ids = set (map m_user_id members_data)
     in \<lparr>joined_ids = new_user_ids - old_user_ids,
         left_ids = old_user_ids - new_user_ids\<rparr>)"

text \<open>\<open>BackupManager.compare_backups\<close> on the member rows of the two backups.\<close>

record card_change =
  cc_user_id :: int
  old_card :: "string option"
  new_card :: "string option"

record compare_result =
  joined :: "BackupMember list"
  left :: "BackupMember list"
  remained :: nat
  card_changed :: "card_change list"

text \<open>
  The three id sets that \<open>compare_backups\<close> computes before it builds its result.
\<close>

definition compare_ids :: "BackupMember list \<Rightarrow> BackupMember list \<Rightarrow> int set \<times> int set \<times> int set" where
  "compare_ids members_1 members_2 =
    (let ids_1 = keys (dict_by user_id members_1);
         ids_2 = keys (dict_by user_id members_2)
     in (ids_2 - ids_1, ids_1 - ids_2, ids_1 \<inter> ids_2))"

text \<open>
  The loop over \<open>remained\<close>. A key missing from one of the dicts would raise \<open>KeyError\<close> at
  \<open>users_1[user_id]\<close>; every key of \<open>remained\<close> is in both (lemma \<open>remained_lookup\<close>), so the
  branch is never taken and contributes nothing.
\<close>

definition card_changes :: "BackupMember dict \<Rightarrow> BackupMember dict \<Rightarrow> int list \<Rightarrow> card_change list" where
  "card_changes users_1 users_2 uids =
    concat (map (\<lambda>uid.
      case (map_of users_1 uid, map_of users_2 uid) of
        (Some m1, Some m2) \<Rightarrow>
          if card_f m1 \<noteq> card_f m2
          then [\<lparr>cc_user_id = uid, old_card = card_f m1, new_card = card_f m2\<rparr>]
          else []
      | _ \<Rightarrow> []) uids)"

definition compare_backups :: "BackupMember list \<Rightarrow> BackupMember list \<Rightarrow> compare_result" where
  "compare_backups members_1 members_2 =
    (let users_1 = dict_by user_id members_1;
         users_2 = dict_by user_id members_2;
         (joined_s, left_s, remained_s) = compare_ids members_1 members_2
     in \<lparr>joined = List.map_filter (map_of users_2) (set_iter joined_s),
         left = List.map_filter (map_of users_1) (set_iter left_s),
         remained = card remained_s,
         card_changed = card_changes users_1 users_2 (set_iter remained_s)\<rparr>)"

section \<open>Remote API\<close>

text \<open>
  The calls of \<open>OneBotAPI\<close> that the rebuild manager issues. The text of a group message is
  a formatted Chinese literal; the model keeps which notice it is and the numbers in it.
\<close>

datatype notice = start_notice nat | done_notice nat nat nat

datatype api_call =
    get_group_member_list int bool
  | get_login_info
  | get_friend_list
  | set_group_card int int string
  | set_group_special_title int int string
  | set_group_admin int int bool
  | send_group_msg int notice

text \<open>The calls that change remote state.\<close>

fun mutating :: "api_call \<Rightarrow> bool" where
  "mutating (get_group_member_list _ _) = False"
| "mutating get_login_info = False"
| "mutating get_friend_list = False"
| "mutating (set_group_card _ _ _) = True"
| "mutating (set_group_special_title _ _ _) = True"
| "mutating (set_group_admin _ _ _) = True"
| "mutating (send_group_msg _ _) = True"

text \<open>
  A call returns a value or raises; \<open>Inl s\<close> is an exception whose \<open>str(e)\<close> is \<open>s\<close>.
\<close>

type_synonym 'a outcome = "string + 'a"

datatype error = ValueError string | ZeroDivisionError

section \<open>Rebuild manager (\<open>rebuild_manager.py\<close>)\<close>

datatype RebuildStatus = PENDING | RUNNING | PAUSED | COMPLETED | FAILED | CANCELLED

datatype InviteStatus = INVITE_PENDING | INVITE_SUCCESS | INVITE_FAILED | INVITE_SKIPPED

text \<open>What \<open>_restore_member_info\<close> appends to \<open>restored\<close>.\<close>

datatype restored_item =
    card_restored string
  | card_cleared
  | title_restored string
  | title_cleared
  | admin_restored

text \<open>The messages of an \<open>InviteResult\<close> (Chinese literals in the source).\<close>

datatype message =
    msg_bot_self
  | msg_in_group_restored "restored_item list"
  | msg_in_group_no_change
  | msg_not_friend
  | msg_marked_for_invite
  | msg_exception string

record InviteResult =
  r_user_id :: int
  r_nickname :: string
  r_status :: InviteStatus
  r_message :: message

text \<open>\<open>RebuildProgress\<close> without its two time stamps; the field \<open>total\<close> is \<open>total_f\<close>.\<close>

record RebuildProgress =
  total_f :: nat
  processed :: nat
  success :: nat
  failed :: nat
  skipped :: nat
  status :: RebuildStatus
  current_user :: "int option"
  results :: "InviteResult list"
  error_message :: "message option"

text \<open>
  The fields of \<open>RebuildManager\<close> that the rebuild reads or writes. The private fields
  \<open>_progress\<close>, \<open>_cancelled\<close>, \<open>_paused\<close> are \<open>progress_f\<close>, \<open>cancelled_f\<close>, \<open>paused_f\<close>.
\<close>

record RebuildManager =
  invites_per_minute :: int
  restore_admins :: bool
  restore_cards :: bool
  restore_titles :: bool
  send_welcome :: bool
  continue_on_error :: bool
  invite_interval :: rat
  progress_f :: "RebuildProgress option"
  cancelled_f :: bool
  paused_f :: bool

text \<open>
  \<open>__init__\<close>: \<open>60.0 / invites_per_minute\<close> raises on zero. The quotient is kept exact
  (the source computes it in floating point).
\<close>

definition init :: "int \<Rightarrow> bool \<Rightarrow> bool \<Rightarrow> bool \<Rightarrow> bool \<Rightarrow> bool \<Rightarrow> error + RebuildManager" where
  "init ipm r_admins r_cards r_titles welcome cont =
    (if ipm = 0 then Inl ZeroDivisionError
     else Inr \<lparr>invites_per_minute = ipm, restore_admins = r_admins, restore_cards = r_cards,
               restore_titles = r_titles, send_welcome = welcome, continue_on_error = cont,
               invite_interval = 60 / of_int ipm,
               progress_f = None, cancelled_f = False, paused_f = False\<rparr>)"

definition upd_progress :: "(RebuildProgress \<Rightarrow> RebuildProgress) \<Rightarrow> RebuildManager \<Rightarrow> RebuildManager" where
  "upd_progress f m = m\<lparr>progress_f := map_option f (progress_f m)\<rparr>"

definition cancel :: "RebuildManager \<Rightarrow> RebuildManager" where
  "cancel m = upd_progress (\<lambda>p. p\<lparr>status := CANCELLED\<rparr>) (m\<lparr>cancelled_f := True\<rparr>)"

definition pause :: "RebuildManager \<Rightarrow> RebuildManager" where
  "pause m = upd_progress (\<lambda>p. p\<lparr>status := PAUSED\<rparr>) (m\<lparr>paused_f := True\<rparr>)"

definition resume :: "RebuildManager \<Rightarrow> RebuildManager" where
  "resume m = upd_progress (\<lambda>p. p\<lparr>status := RUNNING\<rparr>) (m\<lparr>paused_f := False\<rparr>)"

subsection \<open>Dry run\<close>

text \<open>The reasons of a preview entry (Chinese literals in the source).\<close>

datatype reason =
    reason_bot_self
  | reason_in_group_restore
  | reason_in_group_no_change
  | reason_not_friend
  | reason_friend_no_invite_api

record detail =
  d_type :: string
  d_current :: "string option"
  d_backup :: string

record change =
  c_user_id :: int
  c_nickname :: string
  c_action :: string
  c_reason :: reason
  c_details :: "detail list"

record stats =
  total_backup_members :: nat
  current_members :: nat
  will_skip_bot :: nat
  will_skip_already_in :: nat
  will_skip_not_friend :: nat
  will_restore_card :: nat
  will_restore_title :: nat
  will_restore_admin :: nat
  cannot_invite :: nat

record preview =
  statistics :: stats
  changes :: "change list"
  total_changes :: nat
  warning :: bool

text \<open>The three comparisons made for a member that is already in the target group.\<close>

definition card_details :: "RebuildManager \<Rightarrow> GroupMemberInfo \<Rightarrow> BackupMember \<Rightarrow> detail list" where
  "card_details self current_member member =
    (if restore_cards self then
       (let current_card = get_or_empty (m_card current_member);
            backup_card = or_empty (card_f member)
        in if current_card \<noteq> backup_card
           then [\<lparr>d_type = ''card'', d_current = Some current_card, d_backup = backup_card\<rparr>]
           else [])
     else [])"

definition title_details :: "RebuildManager \<Rightarrow> GroupMemberInfo \<Rightarrow> BackupMember \<Rightarrow> detail list" where
  "title_details self current_member member =
    (if restore_titles self then
       (let current_title = get_or_empty (m_title current_member);
            backup_title = or_empty (title member)
        in if current_title \<noteq> backup_title
           then [\<lparr>d_type = ''title'', d_current = Some current_title, d_backup = backup_title\<rparr>]
           else [])
     else [])"

definition admin_details :: "RebuildManager \<Rightarrow> GroupMemberInfo \<Rightarrow> BackupMember \<Rightarrow> detail list" where
  "admin_details self current_member member =
    (if restore_admins self \<and> role member = ''admin'' then
       (let current_role = get_default (m_role current_member) ''member''
        in if current_role \<noteq> Some ''admin'' \<and> current_role \<noteq> Some ''owner''
           then [\<lparr>d_type = ''admin'', d_current = current_role, d_backup = ''admin''\<rparr>]
           else [])
     else [])"

text \<open>
  The body of the loop of \<open>_dry_run_rebuild\<close> for one snapshot member: the new statistics
  and the entry appended to \<open>changes\<close>.
\<close>

definition dry_run_member ::
  "RebuildManager \<Rightarrow> GroupMemberInfo dict \<Rightarrow> int option \<Rightarrow> int set \<Rightarrow> BackupMember
     \<Rightarrow> stats \<Rightarrow> stats \<times> change" where
  "dry_run_member self current_map bot_user_id friend_ids member st =
    (if Some (user_id member) = bot_user_id then
       (st\<lparr>will_skip_bot := will_skip_bot st + 1\<rparr>,
        \<lparr>c_user_id = user_id member, c_nickname = nickname member, c_action = ''skip'',
         c_reason = reason_bot_self, c_details = []\<rparr>)
     else
       (case map_of current_map (user_id member) of
          Some current_member \<Rightarrow>
            (let cd = card_details self current_member member;
                 td = title_details self current_member member;
                 ad = admin_details self current_member member;
                 member_changes = cd @ td @ ad;
                 st' = st\<lparr>will_skip_already_in := will_skip_already_in st + 1,
                          will_restore_card := will_restore_card st + length cd,
                          will_restore_title := will_restore_title st + length td,
                          will_restore_admin := will_restore_admin st + length ad\<rparr>
             in if member_changes \<noteq> []
                then (st', \<lparr>c_user_id = user_id member, c_nickname = nickname member,
                            c_action = ''restore'', c_reason = reason_in_group_restore,
                            c_details = member_changes\<rparr>)
                else (st', \<lparr>c_user_id = user_id member, c_nickname = nickname member,
                            c_action = ''skip'', c_reason = reason_in_group_no_change,
                            c_details = []\<rparr>))
        | None \<Rightarrow>
            (if user_id member \<notin> friend_ids then
               (st\<lparr>will_skip_not_friend := will_skip_not_friend st + 1,
                   cannot_invite := cannot_invite st + 1\<rparr>,
                \<lparr>c_user_id = user_id member, c_nickname = nickname member,
                 c_action = ''cannot_invite'', c_reason = reason_not_friend, c_details = []\<rparr>)
             else
               (st\<lparr>cannot_invite := cannot_invite st + 1\<rparr>,
                \<lparr>c_user_id = user_id member, c_nickname = nickname member,
                 c_action = ''need_invite'', c_reason = reason_friend_no_invite_api,
                 c_details = []\<rparr>))))"

fun dry_run_loop ::
  "RebuildManager \<Rightarrow> GroupMemberInfo dict \<Rightarrow> int option \<Rightarrow> int set \<Rightarrow> BackupMember list
     \<Rightarrow> stats \<times> change list \<Rightarrow> stats \<times> change list" where
  "dry_run_loop self current_map bot_user_id friend_ids [] acc = acc"
| "dry_run_loop self current_map bot_user_id friend_ids (member # rest) (st, chs) =
    (let (st', ch) = dry_run_member self current_map bot_user_id friend_ids member st
     in dry_run_loop self current_map bot_user_id friend_ids rest (st', chs @ [ch]))"

text \<open>
  What the remote side answers to the three calls of a dry run. \<open>reply_login\<close> is
  \<open>login_info.get("user_id")\<close>, \<open>None\<close> when the key is missing.
\<close>

record dry_env =
  reply_members :: "GroupMemberInfo list outcome"
  reply_login :: "int option outcome"
  reply_friends :: "int list outcome"

text \<open>
  \<open>_dry_run_rebuild\<close>: the remote calls it issues, in order, and what it returns or raises.
\<close>

definition dry_run_rebuild ::
  "RebuildManager \<Rightarrow> int \<Rightarrow> BackupMember list \<Rightarrow> dry_env \<Rightarrow> api_call list \<times> (error + preview)" where
  "dry_run_rebuild self group_id backup_members env =
    (case reply_members env of
       Inl e \<Rightarrow> ([get_group_member_list group_id True], Inl (ValueError e))
     | Inr cur_members \<Rightarrow>
        (let current_map = dict_by m_user_id cur_members;
             current_user_ids = keys current_map;
             bot_user_id = (case reply_login env of Inl _ \<Rightarrow> None | Inr b \<Rightarrow> b);
             friend_ids = (case reply_friends env of Inl _ \<Rightarrow> {} | Inr fs \<Rightarrow> set fs);
             stats0 = \<lparr>total_backup_members = length backup_members,
                       current_members = card current_user_ids,
                       will_skip_bot = 0, will_skip_already_in = 0, will_skip_not_friend = 0,
                       will_restore_card = 0, will_restore_title = 0, will_restore_admin = 0,
                       cannot_invite = 0\<rparr>;
             (st, chs) = dry_run_loop self current_map bot_user_id friend_ids backup_members
                           (stats0, [])
         in ([get_group_member_list group_id True, get_login_info, get_friend_list],
             Inr \<lparr>statistics = st, changes = chs,
                  total_changes = will_restore_card st + will_restore_title st
                                  + will_restore_admin st,
                  warning = (cannot_invite st > 0)\<rparr>)))"

subsection \<open>Execution\<close>

text \<open>
  The rebuild is a coroutine on a single-threaded event loop: other code, and with it
  \<open>cancel\<close>, \<open>pause\<close> and \<open>resume\<close>, runs only while the coroutine is suspended in an
  \<open>await\<close>. The environment of a run says, for every \<open>await\<close>, what the awaited call returns
  and which of the three controls are invoked while the coroutine is suspended there.
\<close>

datatype ctrl = do_cancel | do_pause | do_resume

fun apply_ctrl :: "ctrl \<Rightarrow> RebuildManager \<Rightarrow> RebuildManager" where
  "apply_ctrl do_cancel m = cancel m"
| "apply_ctrl do_pause m = pause m"
| "apply_ctrl do_resume m = resume m"

definition apply_ctrls :: "ctrl list \<Rightarrow> RebuildManager \<Rightarrow> RebuildManager" where
  "apply_ctrls cs m = foldl (\<lambda>m c. apply_ctrl c m) m cs"

text \<open>
  What an observer can see of a run: each remote call, each sleep and each invocation of
  the progress callback, together with the progress record as it is at that moment.
\<close>

datatype event = Call api_call | Sleep rat | Callback

type_synonym observation = "event \<times> RebuildProgress option"

record run_state =
  mgr :: RebuildManager
  current_user_ids :: "int set"
  trace :: "observation list"

record 'a reply =
  result :: "'a outcome"
  during :: "ctrl list"

record member_env =
  pause_polls :: "ctrl list list"
  friend_list_reply :: "int list reply"
  card_reply :: "unit reply"
  title_reply :: "unit reply"
  admin_reply :: "unit reply"
  sleep_during :: "ctrl list"

record run_env =
  member_list_reply :: "GroupMemberInfo list reply"
  login_reply :: "int option reply"
  start_msg_reply :: "unit reply"
  member_envs :: "nat \<Rightarrow> member_env"

definition observe :: "event \<Rightarrow> run_state \<Rightarrow> run_state" where
  "observe ev st = st\<lparr>trace := trace st @ [(ev, progress_f (mgr st))]\<rparr>"

definition await :: "event \<Rightarrow> ctrl list \<Rightarrow> run_state \<Rightarrow> run_state" where
  "await ev cs st = (let st' = observe ev st in st'\<lparr>mgr := apply_ctrls cs (mgr st')\<rparr>)"

definition upd :: "(RebuildProgress \<Rightarrow> RebuildProgress) \<Rightarrow> run_state \<Rightarrow> run_state" where
  "upd f st = st\<lparr>mgr := upd_progress f (mgr st)\<rparr>"

text \<open>\<open>_restore_member_info\<close>: three sub-actions, each in its own \<open>try\<close>.\<close>

definition restore_card :: "int \<Rightarrow> member_env \<Rightarrow> BackupMember \<Rightarrow> run_state
    \<Rightarrow> restored_item list \<times> run_state" where
  "restore_card group_id env member st =
    (if restore_cards (mgr st) then
       (let backup_card = or_empty (card_f member);
            st' = await (Call (set_group_card group_id (user_id member) backup_card))
                    (during (card_reply env)) st
        in case result (card_reply env) of
             Inr _ \<Rightarrow> ([if backup_card \<noteq> [] then card_restored backup_card else card_cleared], st')
           | Inl _ \<Rightarrow> ([], st'))
     else ([], st))"

definition restore_title :: "int \<Rightarrow> member_env \<Rightarrow> BackupMember \<Rightarrow> run_state
    \<Rightarrow> restored_item list \<times> run_state" where
  "restore_title group_id env member st =
    (if restore_titles (mgr st) then
       (let backup_title = or_empty (title member);
            st' = await (Call (set_group_special_title group_id (user_id member) backup_title))
                    (during (title_reply env)) st
        in case result (title_reply env) of
             Inr _ \<Rightarrow> ([if backup_title \<noteq> [] then title_restored backup_title else title_cleared], st')
           | Inl _ \<Rightarrow> ([], st'))
     else ([], st))"

definition restore_admin :: "int \<Rightarrow> member_env \<Rightarrow> BackupMember \<Rightarrow> run_state
    \<Rightarrow> restored_item list \<times> run_state" where
  "restore_admin group_id env member st =
    (if restore_admins (mgr st) \<and> role member = ''admin'' then
       (let st' = await (Call (set_group_admin group_id (user_id member) True))
                    (during (admin_reply env)) st
        in case result (admin_reply env) of
             Inr _ \<Rightarrow> ([admin_restored], st')
           | Inl _ \<Rightarrow> ([], st'))
     else ([], st))"

definition restore_member_info :: "int \<Rightarrow> member_env \<Rightarrow> BackupMember \<Rightarrow> run_state
    \<Rightarrow> restored_item list \<times> run_state" where
  "restore_member_info group_id env member st =
    (let (r1, st1) = restore_card group_id env member st;
         (r2, st2) = restore_title group_id env member st1;
         (r3, st3) = restore_admin group_id env member st2
     in (r1 @ r2 @ r3, st3))"

text \<open>\<open>_invite_member\<close>: the friend list is fetched anew for every member.\<close>

definition invite_member :: "int \<Rightarrow> member_env \<Rightarrow> BackupMember \<Rightarrow> run_state
    \<Rightarrow> InviteResult \<times> run_state" where
  "invite_member group_id env member st =
    (let st' = await (Call get_friend_list) (during (friend_list_reply env)) st
     in case result (friend_list_reply env) of
          Inl e \<Rightarrow>
            (\<lparr>r_user_id = user_id member, r_nickname = nickname member,
              r_status = INVITE_FAILED, r_message = msg_exception e\<rparr>, st')
        | Inr friends \<Rightarrow>
            if user_id member \<notin> set friends then
              (\<lparr>r_user_id = user_id member, r_nickname = nickname member,
                r_status = INVITE_SKIPPED, r_message = msg_not_friend\<rparr>, st')
            else
              (\<lparr>r_user_id = user_id member, r_nickname = nickname member,
                r_status = INVITE_SUCCESS, r_message = msg_marked_for_invite\<rparr>, st'))"

text \<open>
  The polling loop \<open>while self._paused\<close>. Its \<open>break\<close> leaves this inner loop only. When the
  schedule has no further poll and the job is still paused, the loop polls forever (\<open>None\<close>).
\<close>

fun wait_while_paused :: "ctrl list list \<Rightarrow> run_state \<Rightarrow> run_state option" where
  "wait_while_paused [] st = (if paused_f (mgr st) then None else Some st)"
| "wait_while_paused (cs # polls) st =
    (if paused_f (mgr st) then
       (let st' = await (Sleep 1) cs st
        in if cancelled_f (mgr st') then Some st' else wait_while_paused polls st')
     else Some st)"

text \<open>The end of an iteration that reaches the bottom of the loop body.\<close>

definition callback_and_sleep :: "bool \<Rightarrow> member_env \<Rightarrow> run_state \<Rightarrow> run_state" where
  "callback_and_sleep progress_callback env st =
    (let st' = (if progress_callback then observe Callback st else st)
     in await (Sleep (invite_interval (mgr st'))) (sleep_during env) st')"

text \<open>How an iteration of the \<open>for\<close> loop ends.\<close>

datatype flow = Next run_state | Stop run_state | Hang

text \<open>The loop body from \<open>self._progress.current_user = member.user_id\<close> on.\<close>

definition process_member :: "int \<Rightarrow> int option \<Rightarrow> bool \<Rightarrow> member_env \<Rightarrow> BackupMember
    \<Rightarrow> run_state \<Rightarrow> flow" where
  "process_member target_group_id bot_user_id progress_callback env member st0 =
    (let st = upd (\<lambda>p. p\<lparr>current_user := Some (user_id member)\<rparr>) st0
     in if Some (user_id member) = bot_user_id then
          Next (upd (\<lambda>p. p\<lparr>skipped := skipped p + 1, processed := processed p + 1,
                   results := results p @ [\<lparr>r_user_id = user_id member,
                     r_nickname = nickname member, r_status = INVITE_SKIPPED,
                     r_message = msg_bot_self\<rparr>]\<rparr>) st)
        else if user_id member \<in> current_user_ids st then
          (let (restore_details, st1) = restore_member_info target_group_id env member st
           in if restore_details \<noteq> [] then
                Next (upd (\<lambda>p. p\<lparr>success := success p + 1, processed := processed p + 1,
                   results := results p @ [\<lparr>r_user_id = user_id member,
                     r_nickname = nickname member, r_status = INVITE_SUCCESS,
                     r_message = msg_in_group_restored restore_details\<rparr>]\<rparr>) st1)
              else
                Next (upd (\<lambda>p. p\<lparr>skipped := skipped p + 1, processed := processed p + 1,
                   results := results p @ [\<lparr>r_user_id = user_id member,
                     r_nickname = nickname member, r_status = INVITE_SKIPPED,
                     r_message = msg_in_group_no_change\<rparr>]\<rparr>) st1))
        else
          (let (invite_result, st1) = invite_member target_group_id env member st;
               st2 = upd (\<lambda>p. p\<lparr>results := results p @ [invite_result],
                                 processed := processed p + 1\<rparr>) st1
           in if r_status invite_result = INVITE_SUCCESS then
                (let st3 = upd (\<lambda>p. p\<lparr>success := success p + 1\<rparr>) st2;
                     st4 = st3\<lparr>current_user_ids := insert (user_id member) (current_user_ids st3)\<rparr>;
                     (restored, st5) = restore_member_info target_group_id env member st4
                 in Next (callback_and_sleep progress_callback env st5))
              else if r_status invite_result = INVITE_FAILED then
                (let st3 = upd (\<lambda>p. p\<lparr>failed := failed p + 1\<rparr>) st2
                 in if \<not> continue_on_error (mgr st3) then
                      Stop (upd (\<lambda>p. p\<lparr>status := FAILED,
                                       error_message := Some (r_message invite_result)\<rparr>) st3)
                    else Next (callback_and_sleep progress_callback env st3))
              else
                Next (callback_and_sleep progress_callback env
                        (upd (\<lambda>p. p\<lparr>skipped := skipped p + 1\<rparr>) st2))))"

text \<open>One iteration: the cancellation check, the pause loop, then the body.\<close>

definition rebuild_member :: "int \<Rightarrow> int option \<Rightarrow> bool \<Rightarrow> member_env \<Rightarrow> BackupMember
    \<Rightarrow> run_state \<Rightarrow> flow" where
  "rebuild_member target_group_id bot_user_id progress_callback env member st =
    (if cancelled_f (mgr st) then Stop (upd (\<lambda>p. p\<lparr>status := CANCELLED\<rparr>) st)
     else case wait_while_paused (pause_polls env) st of
            None \<Rightarrow> Hang
          | Some st' \<Rightarrow> process_member target_group_id bot_user_id progress_callback env member st')"

text \<open>The \<open>for\<close> loop; the \<open>i\<close>-th iteration runs in the \<open>i\<close>-th member environment.\<close>

fun rebuild_loop :: "int \<Rightarrow> int option \<Rightarrow> bool \<Rightarrow> (nat \<Rightarrow> member_env) \<Rightarrow> nat
    \<Rightarrow> BackupMember list \<Rightarrow> run_state \<Rightarrow> run_state option" where
  "rebuild_loop target_group_id bot_user_id progress_callback envs i [] st = Some st"
| "rebuild_loop target_group_id bot_user_id progress_callback envs i (member # rest) st =
    (case rebuild_member target_group_id bot_user_id progress_callback (envs i) member st of
       Next st' \<Rightarrow> rebuild_loop target_group_id bot_user_id progress_callback envs (Suc i) rest st'
     | Stop st' \<Rightarrow> Some st'
     | Hang \<Rightarrow> None)"

text \<open>Ordinary members first, then admins; owners and any other role are dropped.\<close>

definition all_members :: "BackupMember list \<Rightarrow> BackupMember list" where
  "all_members members =
    (let admins = filter (\<lambda>m. role m = ''admin'') members;
         regular_members = filter (\<lambda>m. role m = ''member'') members
     in regular_members @ admins)"

text \<open>
  After the loop. Controls invoked during the closing notification act on the record
  the run returns exactly as controls invoked after the return do, so the closing call
  carries none.
\<close>

definition finish :: "int \<Rightarrow> run_state \<Rightarrow> run_state" where
  "finish target_group_id st =
    (let st1 = upd (\<lambda>p. if status p = RUNNING then p\<lparr>status := COMPLETED\<rparr> else p) st;
         st2 = upd (\<lambda>p. p\<lparr>current_user := None\<rparr>) st1
     in if send_welcome (mgr st2) then
          (case progress_f (mgr st2) of
             None \<Rightarrow> st2
           | Some p \<Rightarrow> observe (Call (send_group_msg target_group_id
                          (done_notice (success p) (failed p) (skipped p)))) st2)
        else st2)"

definition new_progress :: "nat \<Rightarrow> RebuildProgress" where
  "new_progress n = \<lparr>total_f = n, processed = 0, success = 0, failed = 0, skipped = 0,
     status = RUNNING, current_user = None, results = [], error_message = None\<rparr>"

text \<open>The run up to the loop.\<close>

definition start :: "RebuildManager \<Rightarrow> int \<Rightarrow> BackupMember list \<Rightarrow> run_env \<Rightarrow> run_state" where
  "start self target_group_id members env =
    (let st0 = \<lparr>mgr = self\<lparr>progress_f := Some (new_progress (length members)),
                           cancelled_f := False, paused_f := False\<rparr>,
                current_user_ids = {}, trace = []\<rparr>;
         st1 = await (Call (get_group_member_list target_group_id True))
                 (during (member_list_reply env)) st0;
         st2 = st1\<lparr>current_user_ids :=
                 (case result (member_list_reply env) of
                    Inr cur_members \<Rightarrow> set (map m_user_id cur_members)
                  | Inl _ \<Rightarrow> {})\<rparr>;
         st3 = await (Call get_login_info) (during (login_reply env)) st2
     in if send_welcome (mgr st3) then
          await (Call (send_group_msg target_group_id (start_notice (length members))))
            (during (start_msg_reply env)) st3
        else st3)"

definition bot_of :: "run_env \<Rightarrow> int option" where
  "bot_of env = (case result (login_reply env) of Inr b \<Rightarrow> b | Inl _ \<Rightarrow> None)"

text \<open>
  \<open>_rebuild_group\<close>. \<open>progress_callback\<close> says whether a callback was supplied. The result is
  \<open>None\<close> when the run never returns.
\<close>

definition rebuild_group :: "RebuildManager \<Rightarrow> int \<Rightarrow> BackupMember list \<Rightarrow> bool \<Rightarrow> run_env
    \<Rightarrow> run_state option" where
  "rebuild_group self target_group_id members progress_callback env =
    map_option (finish target_group_id)
      (rebuild_loop target_group_id (bot_of env) progress_callback (member_envs env) 0
         (all_members members) (start self target_group_id members env))"

section \<open>Sample inputs\<close>

text \<open>A snapshot row of an ordinary member with the given id and card.\<close>

definition bm :: "int \<Rightarrow> string option \<Rightarrow> BackupMember" where
  "bm uid c = \<lparr>user_id = uid, nickname = ''n'', card_f = c, role = ''member'', title = None\<rparr>"

text \<open>A live member with the given id, card and role; a manager with the given restore flags.\<close>

definition live :: "int \<Rightarrow> string jfield \<Rightarrow> string jfield \<Rightarrow> GroupMemberInfo" where
  "live uid c r = \<lparr>m_user_id = uid, m_nickname = Absent, m_card = c, m_title = Absent, m_role = r\<rparr>"

definition manager :: "bool \<Rightarrow> bool \<Rightarrow> bool \<Rightarrow> RebuildManager" where
  "manager r_cards r_titles r_admins =
    \<lparr>invites_per_minute = 10, restore_admins = r_admins, restore_cards = r_cards,
     restore_titles = r_titles, send_welcome = True, continue_on_error = True,
     invite_interval = 6, progress_f = None, cancelled_f = False, paused_f = False\<rparr>"

text \<open>
  The scenario of the specification: snapshot members 1, 2, 3 with cards A, B, C; the live
  group holds 1 with another card and 2 with card B; the friend list is 3.
\<close>

definition scenario_env :: dry_env where
  "scenario_env = \<lparr>reply_members = Inr [live 1 (Val ''A1'') (Val ''member''), live 2 (Val ''B'') (Val ''member'')],
      reply_login = Inr (Some 99), reply_friends = Inr [3]\<rparr>"

definition scenario_members :: "BackupMember list" where
  "scenario_members = [bm 1 (Some ''A''), bm 2 (Some ''B''), bm 3 (Some ''C'')]"

section \<open>Statements about the dry run\<close>

text \<open>
  When a member that is already in the target group is previewed as \<open>restore\<close>: an
  enabled card or title differs after null and empty have been identified, or admin
  restore is enabled, the snapshot role is admin and the live role is neither admin nor
  owner.
\<close>

definition needs_restore :: "RebuildManager \<Rightarrow> GroupMemberInfo \<Rightarrow> BackupMember \<Rightarrow> bool" where
  "needs_restore self cur member \<longleftrightarrow>
     restore_cards self \<and> get_or_empty (m_card cur) \<noteq> or_empty (card_f member)
     \<or> restore_titles self \<and> get_or_empty (m_title cur) \<noteq> or_empty (title member)
     \<or> restore_admins self \<and> role member = ''admin''
        \<and> get_default (m_role cur) ''member'' \<noteq> Some ''admin''
        \<and> get_default (m_role cur) ''member'' \<noteq> Some ''owner''"

text \<open>The bucket of a snapshot member: action and reason of its preview entry.\<close>

definition bucket :: "RebuildManager \<Rightarrow> GroupMemberInfo list \<Rightarrow> int option \<Rightarrow> int set
    \<Rightarrow> BackupMember \<Rightarrow> string \<times> reason" where
  "bucket self live_members bot_user_id friend_ids member =
    (if Some (user_id member) = bot_user_id then (''skip'', reason_bot_self)
     else case map_of (dict_by m_user_id live_members) (user_id member) of
            Some cur \<Rightarrow> if needs_restore self cur member
                         then (''restore'', reason_in_group_restore)
                         else (''skip'', reason_in_group_no_change)
          | None \<Rightarrow> if user_id member \<in> friend_ids
                     then (''need_invite'', reason_friend_no_invite_api)
                     else (''cannot_invite'', reason_not_friend))"

text \<open>
  The wording of the specification: an enabled attribute differs from the live value.
  For the admin attribute the values compared are whether the role is admin.
\<close>

definition attribute_differs :: "RebuildManager \<Rightarrow> GroupMemberInfo \<Rightarrow> BackupMember \<Rightarrow> bool" where
  "attribute_differs self cur member \<longleftrightarrow>
     restore_cards self \<and> get_or_empty (m_card cur) \<noteq> or_empty (card_f member)
     \<or> restore_titles self \<and> get_or_empty (m_title cur) \<noteq> or_empty (title member)
     \<or> restore_admins self
        \<and> (role member = ''admin'') \<noteq> (get_default (m_role cur) ''member'' = Some ''admin'')"

text \<open>User id, action and reason of a preview entry.\<close>

definition view :: "change \<Rightarrow> int \<times> string \<times> reason" where
  "view c = (c_user_id c, c_action c, c_reason c)"

definition bot_of_dry :: "dry_env \<Rightarrow> int option" where
  "bot_of_dry env = (case reply_login env of Inl _ \<Rightarrow> None | Inr b \<Rightarrow> b)"

definition friends_of_dry :: "dry_env \<Rightarrow> int set" where
  "friends_of_dry env = (case reply_friends env of Inl _ \<Rightarrow> {} | Inr fs \<Rightarrow> set fs)"

section \<open>Statements about a run\<close>

text \<open>The status a control writes, and the status after a list of controls.\<close>

fun ctrl_status :: "ctrl \<Rightarrow> RebuildStatus" where
  "ctrl_status do_cancel = CANCELLED"
| "ctrl_status do_pause = PAUSED"
| "ctrl_status do_resume = RUNNING"

definition status_after :: "ctrl list \<Rightarrow> RebuildStatus \<Rightarrow> RebuildStatus" where
  "status_after cs s = foldl (\<lambda>s c. ctrl_status c) s cs"

text \<open>
  The counter invariant of a progress record: the total is \<open>n\<close>, \<open>k\<close> members have been
  processed, each counted once and with one result, and \<open>k\<close> does not exceed the total.
\<close>

definition counted :: "nat \<Rightarrow> nat \<Rightarrow> RebuildProgress \<Rightarrow> bool" where
  "counted n k p \<longleftrightarrow> total_f p = n \<and> processed p = k \<and> k = success p + failed p + skipped p
     \<and> length (results p) = k \<and> k \<le> n"

text \<open>An observation shows a progress record that satisfies the counter invariant.\<close>

definition seen_ok :: "nat \<Rightarrow> observation \<Rightarrow> bool" where
  "seen_ok n ob = (case snd ob of None \<Rightarrow> False | Some q \<Rightarrow> counted n (processed q) q)"

text \<open>
  The invariant of the loop: the members \<open>done\<close> have been processed, the results are
  theirs in order, and every observation made so far satisfies the counter invariant.
\<close>

definition inv :: "nat \<Rightarrow> BackupMember list \<Rightarrow> run_state \<Rightarrow> bool" where
  "inv n done st \<longleftrightarrow>
     (case progress_f (mgr st) of None \<Rightarrow> False
      | Some p \<Rightarrow> counted n (length done) p \<and> map r_user_id (results p) = map user_id done)
     \<and> list_all (seen_ok n) (trace st)"

text \<open>The state an iteration ends in, if it ends.\<close>

definition after :: "flow \<Rightarrow> run_state option" where
  "after fl = (case fl of Next st \<Rightarrow> Some st | Stop st \<Rightarrow> Some st | Hang \<Rightarrow> None)"

text \<open>The configuration of a manager and the counted part of a progress record.\<close>

definition config :: "RebuildManager \<Rightarrow> bool \<times> bool \<times> bool \<times> bool \<times> bool \<times> rat" where
  "config m = (restore_cards m, restore_titles m, restore_admins m, send_welcome m,
     continue_on_error m, invite_interval m)"

definition counts :: "RebuildProgress \<Rightarrow> nat \<times> nat \<times> nat \<times> nat \<times> nat \<times> InviteResult list" where
  "counts p = (total_f p, processed p, success p, failed p, skipped p, results p)"

text \<open>
  A part of the run that only waits: it leaves the roster, the configuration and the
  counted part of the progress record as they are and extends the trace.
\<close>

definition benign :: "run_state \<Rightarrow> run_state \<Rightarrow> bool" where
  "benign st st' \<longleftrightarrow> current_user_ids st' = current_user_ids st
     \<and> config (mgr st') = config (mgr st)
     \<and> map_option counts (progress_f (mgr st')) = map_option counts (progress_f (mgr st))
     \<and> (\<exists>ext. trace st' = trace st @ ext)"


text \<open>
  One member has been accounted for between the progress records \<open>p\<close> and \<open>p'\<close>: its
  result \<open>r\<close> is appended, \<open>processed\<close> grows by one and so does the counter that matches
  the status of \<open>r\<close>, the other two counters and the total stay.
\<close>

definition accounted :: "RebuildProgress \<Rightarrow> InviteResult \<Rightarrow> RebuildProgress \<Rightarrow> bool" where
  "accounted p r p' \<longleftrightarrow> results p' = results p @ [r] \<and> total_f p' = total_f p
     \<and> processed p' = processed p + 1
     \<and> success p' = success p + (if r_status r = INVITE_SUCCESS then 1 else 0)
     \<and> failed p' = failed p + (if r_status r = INVITE_FAILED then 1 else 0)
     \<and> skipped p' = skipped p + (if r_status r = INVITE_SKIPPED then 1 else 0)
     \<and> r_status r \<noteq> INVITE_PENDING"





section \<open>Sample runs\<close>

text \<open>A reply without any control invoked while the call is awaited.\<close>

definition ok :: "'a \<Rightarrow> 'a reply" where
  "ok v = \<lparr>result = Inr v, during = []\<rparr>"

text \<open>A member environment in which every call succeeds and no control is invoked.\<close>

definition quiet_member :: "int list \<Rightarrow> member_env" where
  "quiet_member friends = \<lparr>pause_polls = [], friend_list_reply = ok friends, card_reply = ok (),
     title_reply = ok (), admin_reply = ok (), sleep_during = []\<rparr>"

text \<open>A run environment with the given roster reply and friend list; the bot is 99.\<close>

definition quiet_env :: "GroupMemberInfo list outcome \<Rightarrow> int list \<Rightarrow> run_env" where
  "quiet_env roster friends = \<lparr>member_list_reply = \<lparr>result = roster, during = []\<rparr>,
     login_reply = ok (Some 99), start_msg_reply = ok (),
     member_envs = (\<lambda>i. quiet_member friends)\<rparr>"

definition scenario_roster :: "GroupMemberInfo list" where
  "scenario_roster = [live 1 (Val ''A1'') (Val ''member''), live 2 (Val ''B'') (Val ''member'')]"

text \<open>What a run returns: status, total, processed and the results; and its events.\<close>

definition outcomes :: "run_state option
    \<Rightarrow> (RebuildStatus \<times> nat \<times> nat \<times> (int \<times> InviteStatus \<times> message) list) option" where
  "outcomes r = (case r of None \<Rightarrow> None
     | Some st \<Rightarrow> (case progress_f (mgr st) of None \<Rightarrow> None
        | Some p \<Rightarrow> Some (status p, total_f p, processed p,
                     map (\<lambda>r. (r_user_id r, r_status r, r_message r)) (results p))))"

definition events :: "run_state option \<Rightarrow> event list" where
  "events r = (case r of None \<Rightarrow> [] | Some st \<Rightarrow> map fst (trace st))"

text \<open>
  \<open>pause\<close> is invoked during the sleep after the first member; \<open>cancel\<close> is invoked during
  the first poll of the pause loop before the second member.
\<close>

definition pause_then_cancel :: "int list \<Rightarrow> nat \<Rightarrow> member_env" where
  "pause_then_cancel friends i =
     (if i = 0 then (quiet_member friends)\<lparr>sleep_during := [do_pause]\<rparr>
      else if i = 1 then (quiet_member friends)\<lparr>pause_polls := [[do_cancel]]\<rparr>
      else quiet_member friends)"

section \<open>Properties\<close>

subsection \<open>Dictionaries\<close>

lemma fst_set_foldl_update:
  "fst ` set (foldl (\<lambda>d x. AList.update (key x) x d) d xs) = fst ` set d \<union> key ` set xs"
  by (induction xs arbitrary: d) (auto simp: dom_update)

lemma keys_dict_by: "keys (dict_by key xs) = key ` set xs"
  by (simp add: keys_def dict_by_def fst_set_foldl_update)

lemma map_of_foldl_update:
  "(\<And>k x. map_of d k = Some x \<Longrightarrow> key x = k \<and> x \<in> S) \<Longrightarrow> set xs \<subseteq> S \<Longrightarrow>
   map_of (foldl (\<lambda>d x. AList.update (key x) x d) d xs) k = Some x \<Longrightarrow> key x = k \<and> x \<in> S"
proof (induction xs arbitrary: d)
  case Nil
  then show ?case by simp
next
  case (Cons a xs)
  have a: "a \<in> S" and xs: "set xs \<subseteq> S" using Cons.prems(2) by simp_all
  have step: "\<And>k x. map_of (AList.update (key a) a d) k = Some x \<Longrightarrow> key x = k \<and> x \<in> S"
  proof -
    fix k x assume h: "map_of (AList.update (key a) a d) k = Some x"
    show "key x = k \<and> x \<in> S"
    proof (cases "k = key a")
      case True
      then have "x = a" using h by (simp add: update_conv)
      then show ?thesis using True a by simp
    next
      case False
      then have "map_of d k = Some x" using h by (simp add: update_conv)
      then show ?thesis by (rule Cons.prems(1))
    qed
  qed
  have "map_of (foldl (\<lambda>d x. AList.update (key x) x d) (AList.update (key a) a d) xs) k = Some x"
    using Cons.prems(3) by simp
  with Cons.IH[of "AList.update (key a) a d"] step xs show ?case by blast
qed

lemma map_of_dict_by:
  assumes "map_of (dict_by key xs) k = Some x"
  shows "key x = k \<and> x \<in> set xs"
proof (rule map_of_foldl_update[of "[]" key "set xs" xs k x])
  show "map_of (foldl (\<lambda>d x. AList.update (key x) x d) [] xs) k = Some x"
    using assms by (simp add: dict_by_def)
qed simp_all

lemma dict_by_lookup:
  assumes "k \<in> key ` set xs"
  shows "\<exists>x. map_of (dict_by key xs) k = Some x"
proof -
  have "k \<in> fst ` set (dict_by key xs)"
    using assms keys_dict_by[of key xs] by (simp add: keys_def)
  then have "k \<in> dom (map_of (dict_by key xs))"
    by (simp add: dom_map_of_conv_image_fst)
  then show ?thesis by blast
qed

lemma set_map_filter_conv:
  "set (List.map_filter f xs) = {y. \<exists>x\<in>set xs. f x = Some y}"
  by (induction xs) (auto simp: List.map_filter_simps split: option.splits)

lemma user_ids_map_filter:
  assumes "finite A" "A \<subseteq> key ` set xs"
  shows "key ` set (List.map_filter (map_of (dict_by key xs)) (set_iter A)) = A"
proof -
  have s: "set (set_iter A) = A" using assms(1) by (simp add: set_iter_def)
  show ?thesis
  proof (rule set_eqI, rule iffI)
    fix k
    assume "k \<in> key ` set (List.map_filter (map_of (dict_by key xs)) (set_iter A))"
    then obtain x j where "j \<in> A" "map_of (dict_by key xs) j = Some x" "key x = k"
      unfolding set_map_filter_conv s by blast
    then show "k \<in> A" using map_of_dict_by[of key xs j x] by simp
  next
    fix k
    assume k: "k \<in> A"
    then obtain x where x: "map_of (dict_by key xs) k = Some x"
      using dict_by_lookup[of k key xs] assms(2) by blast
    then have "key x = k" using map_of_dict_by[of key xs k x] by simp
    then show "k \<in> key ` set (List.map_filter (map_of (dict_by key xs)) (set_iter A))"
      unfolding set_map_filter_conv s using k x by blast
  qed
qed

subsection \<open>Diff engine\<close>

lemma compare_ids_eq:
  "compare_ids old new = (user_id ` set new - user_id ` set old,
      user_id ` set old - user_id ` set new, user_id ` set old \<inter> user_id ` set new)"
  by (simp add: compare_ids_def Let_def keys_dict_by)

text \<open>Every key of \<open>remained\<close> is found in both dicts, so \<open>users_1[user_id]\<close> never raises.\<close>

lemma remained_lookup:
  assumes "uid \<in> user_id ` set old \<inter> user_id ` set new"
  shows "\<exists>m1 m2. map_of (dict_by user_id old) uid = Some m1
           \<and> map_of (dict_by user_id new) uid = Some m2"
  using assms dict_by_lookup[of uid user_id old] dict_by_lookup[of uid user_id new] by blast

lemma joined_of_compare:
  "joined (compare_backups old new) =
     List.map_filter (map_of (dict_by user_id new)) (set_iter (user_id ` set new - user_id ` set old))"
  by (simp add: compare_backups_def compare_ids_eq Let_def)

lemma left_of_compare:
  "left (compare_backups old new) =
     List.map_filter (map_of (dict_by user_id old)) (set_iter (user_id ` set old - user_id ` set new))"
  by (simp add: compare_backups_def compare_ids_eq Let_def)

lemma remained_of_compare:
  "remained (compare_backups old new) = card (user_id ` set old \<inter> user_id ` set new)"
  by (simp add: compare_backups_def compare_ids_eq Let_def)

lemma joined_ids_of_compare:
  "user_id ` set (joined (compare_backups old new)) = user_id ` set new - user_id ` set old"
  unfolding joined_of_compare by (rule user_ids_map_filter) auto

lemma left_ids_of_compare:
  "user_id ` set (left (compare_backups old new)) = user_id ` set old - user_id ` set new"
  unfolding left_of_compare by (rule user_ids_map_filter) auto

lemma backup_group_joined:
  "joined_ids (backup_group_diff rows data) = m_user_id ` set data - mem_user_id ` set rows"
  by (simp add: backup_group_diff_def get_current_members_def keys_dict_by)

lemma backup_group_left:
  "left_ids (backup_group_diff rows data) = mem_user_id ` set rows - m_user_id ` set data"
  by (simp add: backup_group_diff_def get_current_members_def keys_dict_by)

text \<open>
  C2. For any two member collections \<open>old\<close> and \<open>new\<close>, with the user ids occurring in them
  as key sets: \<open>compare_backups\<close> computes the id sets joined = new - old, left = old - new
  and remained = old \<inter> new; the entries it returns as joined and left carry exactly
  these ids, it returns the size of remained, and joined and left are disjoint. The diff
  inside \<open>backup_group\<close> computes joined = new - old and left = old - new, disjoint as well
  (it computes no remained set).
\<close>

theorem diff_correct:
  "compare_ids old new =
     (user_id ` set new - user_id ` set old, user_id ` set old - user_id ` set new,
      user_id ` set old \<inter> user_id ` set new)
   \<and> user_id ` set (joined (compare_backups old new)) = user_id ` set new - user_id ` set old
   \<and> user_id ` set (left (compare_backups old new)) = user_id ` set old - user_id ` set new
   \<and> remained (compare_backups old new) = card (user_id ` set old \<inter> user_id ` set new)
   \<and> user_id ` set (joined (compare_backups old new))
       \<inter> user_id ` set (left (compare_backups old new)) = {}
   \<and> joined_ids (backup_group_diff rows data) = m_user_id ` set data - mem_user_id ` set rows
   \<and> left_ids (backup_group_diff rows data) = mem_user_id ` set rows - m_user_id ` set data
   \<and> joined_ids (backup_group_diff rows data) \<inter> left_ids (backup_group_diff rows data) = {}"
  unfolding joined_ids_of_compare left_ids_of_compare remained_of_compare
    backup_group_joined backup_group_left compare_ids_eq
  by blast

theorem diff_correct_witness:
  "user_id ` set (joined (compare_backups [bm 1 None, bm 2 None] [bm 2 None, bm 3 None])) = {3}
   \<and> user_id ` set (left (compare_backups [bm 1 None, bm 2 None] [bm 2 None, bm 3 None])) = {1}
   \<and> remained (compare_backups [bm 1 None, bm 2 None] [bm 2 None, bm 3 None]) = 1"
  using diff_correct[of "[bm 1 None, bm 2 None]" "[bm 2 None, bm 3 None]" "[]" "[]"]
  by (auto simp: bm_def)

text \<open>
  C8. \<open>compare_backups\<close> compares the two cards with \<open>!=\<close> and no normalisation: a member
  whose card is null in the old backup and the empty string in the new one is reported
  in \<open>card_changed\<close>.
\<close>

theorem compare_backups_null_vs_empty:
  "card_changed (compare_backups [bm 1 None] [bm 1 (Some [])])
     = [\<lparr>cc_user_id = 1, old_card = None, new_card = Some []\<rparr>]"
  by (simp add: compare_backups_def compare_ids_def dict_by_def keys_def set_iter_def
        card_changes_def bm_def)

subsection \<open>Dry run\<close>

lemma details_empty_iff:
  "card_details self cur m @ title_details self cur m @ admin_details self cur m \<noteq> []
     \<longleftrightarrow> needs_restore self cur m"
  by (auto simp: card_details_def title_details_def admin_details_def needs_restore_def Let_def)

lemma view_dry_run_member:
  "view (snd (dry_run_member self (dict_by m_user_id live_members) bot_id fr m st))
     = (user_id m, bucket self live_members bot_id fr m)"
  using details_empty_iff[of self _ m]
  by (auto simp: dry_run_member_def bucket_def view_def Let_def split: option.splits)

lemma dry_run_loop_changes:
  "map view (snd (dry_run_loop self (dict_by m_user_id live_members) bot_id fr ms (st, chs)))
     = map view chs @ map (\<lambda>m. (user_id m, bucket self live_members bot_id fr m)) ms"
proof (induction ms arbitrary: st chs)
  case Nil
  then show ?case by simp
next
  case (Cons m ms)
  obtain st' ch where r: "dry_run_member self (dict_by m_user_id live_members) bot_id fr m st = (st', ch)"
    by (cases "dry_run_member self (dict_by m_user_id live_members) bot_id fr m st")
  have "view ch = (user_id m, bucket self live_members bot_id fr m)"
    using view_dry_run_member[of self live_members bot_id fr m st] r by simp
  then show ?case using Cons.IH[of st' "chs @ [ch]"] r by simp
qed

text \<open>
  C3 (amended). When the roster fetch succeeds, the preview has exactly one entry per
  snapshot member, in snapshot order, and its action follows the priority order: bot-self
  is skipped first; a member in the target group gets \<open>restore\<close> if an enabled card or title
  differs from the live value (null and empty string taken as equal) or if admin restore
  is enabled, the snapshot role is admin and the live role is neither admin nor owner,
  else \<open>skip\<close> (no change needed); an absent member who is not a friend gets
  \<open>cannot_invite\<close>; an absent member who is a friend gets \<open>need_invite\<close>.
\<close>

theorem dry_run_buckets:
  assumes "reply_members env = Inr live_members"
  shows "\<exists>pv. snd (dry_run_rebuild self gid members env) = Inr pv
           \<and> map view (changes pv)
               = map (\<lambda>m. (user_id m, bucket self live_members (bot_of_dry env) (friends_of_dry env) m))
                   members"
proof -
  let ?cm = "dict_by m_user_id live_members"
  let ?s0 = "\<lparr>total_backup_members = length members, current_members = card (keys ?cm),
               will_skip_bot = 0, will_skip_already_in = 0, will_skip_not_friend = 0,
               will_restore_card = 0, will_restore_title = 0, will_restore_admin = 0,
               cannot_invite = 0\<rparr>"
  obtain st chs where l: "dry_run_loop self ?cm (bot_of_dry env) (friends_of_dry env) members (?s0, []) = (st, chs)"
    by (cases "dry_run_loop self ?cm (bot_of_dry env) (friends_of_dry env) members (?s0, [])")
  have "map view chs = map (\<lambda>m. (user_id m, bucket self live_members (bot_of_dry env) (friends_of_dry env) m)) members"
    using dry_run_loop_changes[of self live_members "bot_of_dry env" "friends_of_dry env" members ?s0 "[]"] l
    by simp
  then show ?thesis using assms l
    by (simp add: dry_run_rebuild_def Let_def bot_of_dry_def friends_of_dry_def)
qed

text \<open>
  The scenario of the specification, with card and title restore on and admin restore
  off: 1 is restored, 2 is skipped (no change needed), 3 needs a manual invite.
\<close>

theorem dry_run_buckets_witness:
  "reply_members scenario_env = Inr [live 1 (Val ''A1'') (Val ''member''), live 2 (Val ''B'') (Val ''member'')]
   \<and> (\<exists>pv. snd (dry_run_rebuild (manager True True False) 7 scenario_members scenario_env) = Inr pv
        \<and> map view (changes pv) = [(1, ''restore'', reason_in_group_restore),
              (2, ''skip'', reason_in_group_no_change), (3, ''need_invite'', reason_friend_no_invite_api)])"
  using dry_run_buckets[of scenario_env "[live 1 (Val ''A1'') (Val ''member''), live 2 (Val ''B'') (Val ''member'')]"
      "manager True True False" 7 scenario_members]
  by (simp add: scenario_env_def scenario_members_def bucket_def needs_restore_def manager_def
        bm_def live_def dict_by_def bot_of_dry_def friends_of_dry_def get_or_empty_def or_empty_def)

text \<open>
  C3 as stated fails: with admin restore enabled, a snapshot member of role member whose
  live role is admin differs in the admin attribute, and the preview skips it.
\<close>

theorem admin_difference_counterexample:
  "attribute_differs (manager True True True) (live 1 (Val ''A'') (Val ''admin'')) (bm 1 (Some ''A''))
   \<and> map view (changes (projr (snd (dry_run_rebuild (manager True True True) 7 [bm 1 (Some ''A'')]
        \<lparr>reply_members = Inr [live 1 (Val ''A'') (Val ''admin'')], reply_login = Inr (Some 99),
          reply_friends = Inr []\<rparr>))))
      = [(1, ''skip'', reason_in_group_no_change)]"
  by (simp add: attribute_differs_def manager_def live_def bm_def get_default_def get_or_empty_def
       or_empty_def dry_run_rebuild_def dict_by_def keys_def dry_run_member_def view_def
       card_details_def title_details_def admin_details_def Let_def)

text \<open>
  C4. Whatever the remote side answers, a dry run issues either the roster fetch alone
  (when it raises) or the roster fetch, \<open>get_login_info\<close> and \<open>get_friend_list\<close>; none of
  its calls is a mutating one.
\<close>

theorem dry_run_read_only:
  "fst (dry_run_rebuild self gid members env) \<in>
      {[get_group_member_list gid True],
       [get_group_member_list gid True, get_login_info, get_friend_list]}
   \<and> list_all (\<lambda>c. \<not> mutating c) (fst (dry_run_rebuild self gid members env))"
  by (cases "reply_members env") (auto simp: dry_run_rebuild_def Let_def split: prod.splits)

theorem dry_run_read_only_witness:
  "fst (dry_run_rebuild (manager True True True) 7 scenario_members scenario_env)
     = [get_group_member_list 7 True, get_login_info, get_friend_list]
   \<and> list_all (\<lambda>c. \<not> mutating c)
        (fst (dry_run_rebuild (manager True True True) 7 scenario_members scenario_env))"
  using dry_run_read_only[of "manager True True True" 7 scenario_members scenario_env]
  by (simp add: dry_run_rebuild_def scenario_env_def Let_def split: prod.splits)

subsection \<open>Execution: counters\<close>

lemma upd_simps [simp]:
  "trace (upd f st) = trace st"
  "current_user_ids (upd f st) = current_user_ids st"
  "progress_f (mgr (upd f st)) = map_option f (progress_f (mgr st))"
  "cancelled_f (mgr (upd f st)) = cancelled_f (mgr st)"
  "paused_f (mgr (upd f st)) = paused_f (mgr st)"
  "restore_cards (mgr (upd f st)) = restore_cards (mgr st)"
  "restore_titles (mgr (upd f st)) = restore_titles (mgr st)"
  "restore_admins (mgr (upd f st)) = restore_admins (mgr st)"
  "send_welcome (mgr (upd f st)) = send_welcome (mgr st)"
  "continue_on_error (mgr (upd f st)) = continue_on_error (mgr st)"
  "invite_interval (mgr (upd f st)) = invite_interval (mgr st)"
  by (simp_all add: upd_def upd_progress_def)

lemma apply_ctrl_config [simp]:
  "restore_cards (apply_ctrl c m) = restore_cards m"
  "restore_titles (apply_ctrl c m) = restore_titles m"
  "restore_admins (apply_ctrl c m) = restore_admins m"
  "send_welcome (apply_ctrl c m) = send_welcome m"
  "continue_on_error (apply_ctrl c m) = continue_on_error m"
  "invite_interval (apply_ctrl c m) = invite_interval m"
  by (cases c; simp add: cancel_def pause_def resume_def upd_progress_def)+

lemma apply_ctrl_progress:
  "progress_f (apply_ctrl c m) = map_option (\<lambda>p. p\<lparr>status := ctrl_status c\<rparr>) (progress_f m)"
  by (cases c) (simp_all add: cancel_def pause_def resume_def upd_progress_def)

lemma apply_ctrls_config [simp]:
  "restore_cards (apply_ctrls cs m) = restore_cards m"
  "restore_titles (apply_ctrls cs m) = restore_titles m"
  "restore_admins (apply_ctrls cs m) = restore_admins m"
  "send_welcome (apply_ctrls cs m) = send_welcome m"
  "continue_on_error (apply_ctrls cs m) = continue_on_error m"
  "invite_interval (apply_ctrls cs m) = invite_interval m"
  unfolding apply_ctrls_def by (induction cs arbitrary: m; simp)+

lemma apply_ctrls_progress:
  "progress_f (apply_ctrls cs m)
     = map_option (\<lambda>p. p\<lparr>status := status_after cs (status p)\<rparr>) (progress_f m)"
  unfolding apply_ctrls_def status_after_def
proof (induction cs arbitrary: m)
  case Nil
  then show ?case by (cases "progress_f m") simp_all
next
  case (Cons c cs)
  show ?case by (cases "progress_f m") (simp_all add: Cons.IH apply_ctrl_progress)
qed

lemma await_simps [simp]:
  "trace (await ev cs st) = trace st @ [(ev, progress_f (mgr st))]"
  "current_user_ids (await ev cs st) = current_user_ids st"
  "mgr (await ev cs st) = apply_ctrls cs (mgr st)"
  by (simp_all add: await_def observe_def Let_def)

lemma observe_simps [simp]:
  "trace (observe ev st) = trace st @ [(ev, progress_f (mgr st))]"
  "current_user_ids (observe ev st) = current_user_ids st"
  "mgr (observe ev st) = mgr st"
  by (simp_all add: observe_def)

lemma counted_status [simp]: "counted n k (p\<lparr>status := s\<rparr>) = counted n k p"
  by (simp add: counted_def)

lemma counted_current_user [simp]: "counted n k (p\<lparr>current_user := u\<rparr>) = counted n k p"
  by (simp add: counted_def)

lemma inv_await: "inv n done st \<Longrightarrow> inv n done (await ev cs st)"
  by (auto simp: inv_def apply_ctrls_progress seen_ok_def counted_def split: option.splits)

lemma inv_observe: "inv n done st \<Longrightarrow> inv n done (observe ev st)"
  by (auto simp: inv_def seen_ok_def counted_def split: option.splits)

lemma inv_upd_status:
  "inv n done st \<Longrightarrow> inv n done (upd (\<lambda>p. p\<lparr>status := s\<rparr>) st)"
  by (auto simp: inv_def split: option.splits)

lemma inv_upd_current_user:
  "inv n done st \<Longrightarrow> inv n done (upd (\<lambda>p. p\<lparr>current_user := u\<rparr>) st)"
  by (auto simp: inv_def split: option.splits)

lemma inv_restore_card: "inv n done st \<Longrightarrow> inv n done (snd (restore_card g e m st))"
  by (simp add: restore_card_def Let_def inv_await split: sum.splits)

lemma inv_restore_title: "inv n done st \<Longrightarrow> inv n done (snd (restore_title g e m st))"
  by (simp add: restore_title_def Let_def inv_await split: sum.splits)

lemma inv_restore_admin: "inv n done st \<Longrightarrow> inv n done (snd (restore_admin g e m st))"
  by (simp add: restore_admin_def Let_def inv_await split: sum.splits)

lemma inv_restore_member_info:
  "inv n done st \<Longrightarrow> inv n done (snd (restore_member_info g e m st))"
  by (simp add: restore_member_info_def Let_def split: prod.splits)
     (metis inv_restore_card inv_restore_title inv_restore_admin snd_conv)

lemma inv_invite_member: "inv n done st \<Longrightarrow> inv n done (snd (invite_member g e m st))"
  by (simp add: invite_member_def Let_def inv_await split: sum.splits)

lemma inv_wait_while_paused:
  "inv n done st \<Longrightarrow> wait_while_paused polls st = Some st' \<Longrightarrow> inv n done st'"
proof (induction polls arbitrary: st)
  case Nil
  then show ?case by (simp split: if_splits)
next
  case (Cons cs polls)
  show ?case
  proof (cases "paused_f (mgr st)")
    case False
    then show ?thesis using Cons.prems by simp
  next
    case True
    have i: "inv n done (await (Sleep 1) cs st)" using Cons.prems(1) by (rule inv_await)
    show ?thesis
    proof (cases "cancelled_f (mgr (await (Sleep 1) cs st))")
      case True
      then show ?thesis using Cons.prems(2) \<open>paused_f (mgr st)\<close> i by (simp add: Let_def)
    next
      case False
      then have "wait_while_paused polls (await (Sleep 1) cs st) = Some st'"
        using Cons.prems(2) \<open>paused_f (mgr st)\<close> by (simp add: Let_def)
      then show ?thesis using Cons.IH[OF i] by simp
    qed
  qed
qed

lemma upd_upd: "upd g (upd h st) = upd (g \<circ> h) st"
  by (simp add: upd_def upd_progress_def option.map_comp)

lemma inv_current_ids [simp]: "inv n done (st\<lparr>current_user_ids := X\<rparr>) = inv n done st"
  by (simp add: inv_def)

lemma inv_upd_count:
  assumes "inv n done st"
    and "\<And>p. counted n (length done) p \<Longrightarrow> map r_user_id (results p) = map user_id done \<Longrightarrow>
           counted n (Suc (length done)) (f p)
           \<and> map r_user_id (results (f p)) = map user_id (done @ [m])"
  shows "inv n (done @ [m]) (upd f st)"
  using assms by (auto simp: inv_def split: option.splits)

lemma inv_callback_and_sleep:
  "inv n done st \<Longrightarrow> inv n done (callback_and_sleep cb e st)"
  by (simp add: callback_and_sleep_def Let_def inv_await inv_observe)

lemma invite_member_result:
  "r_user_id (fst (invite_member g e m st)) = user_id m"
  "r_status (fst (invite_member g e m st)) \<noteq> INVITE_PENDING"
  by (simp_all add: invite_member_def Let_def split: sum.splits)

lemma inv_process_member:
  assumes i: "inv n done st" and lt: "length done < n"
  shows "\<exists>st'. after (process_member g b cb e m st) = Some st' \<and> inv n (done @ [m]) st'"
proof -
  let ?st = "upd (\<lambda>p. p\<lparr>current_user := Some (user_id m)\<rparr>) st"
  have i0: "inv n done ?st" using i by (rule inv_upd_current_user)
  show ?thesis
  proof (cases "Some (user_id m) = b")
    case True
    have "inv n (done @ [m]) (upd (\<lambda>p. p\<lparr>skipped := skipped p + 1, processed := processed p + 1,
                   results := results p @ [\<lparr>r_user_id = user_id m,
                     r_nickname = nickname m, r_status = INVITE_SKIPPED,
                     r_message = msg_bot_self\<rparr>]\<rparr>) ?st)"
      using lt by (intro inv_upd_count[OF i0]) (auto simp: counted_def)
    then show ?thesis using True by (simp add: process_member_def Let_def after_def)
  next
    case nb: False
    show ?thesis
    proof (cases "user_id m \<in> current_user_ids st")
      case True
      obtain rd st1 where r: "restore_member_info g e m ?st = (rd, st1)"
        by (cases "restore_member_info g e m ?st")
      have i1: "inv n done st1" using inv_restore_member_info[OF i0, of g e m] r by simp
      have a: "inv n (done @ [m]) (upd (\<lambda>p. p\<lparr>success := success p + 1, processed := processed p + 1,
                   results := results p @ [\<lparr>r_user_id = user_id m,
                     r_nickname = nickname m, r_status = INVITE_SUCCESS,
                     r_message = msg_in_group_restored rd\<rparr>]\<rparr>) st1)"
        using lt by (intro inv_upd_count[OF i1]) (auto simp: counted_def)
      have b: "inv n (done @ [m]) (upd (\<lambda>p. p\<lparr>skipped := skipped p + 1, processed := processed p + 1,
                   results := results p @ [\<lparr>r_user_id = user_id m,
                     r_nickname = nickname m, r_status = INVITE_SKIPPED,
                     r_message = msg_in_group_no_change\<rparr>]\<rparr>) st1)"
        using lt by (intro inv_upd_count[OF i1]) (auto simp: counted_def)
      show ?thesis using nb True r a b by (simp add: process_member_def Let_def after_def)
    next
      case np: False
      obtain ir st1 where r: "invite_member g e m ?st = (ir, st1)"
        by (cases "invite_member g e m ?st")
      have i1: "inv n done st1" using inv_invite_member[OF i0, of g e m] r by simp
      have u: "r_user_id ir = user_id m" using invite_member_result(1)[of g e m ?st] r by simp
      have s: "r_status ir \<noteq> INVITE_PENDING" using invite_member_result(2)[of g e m ?st] r by simp
      let ?st2 = "upd (\<lambda>p. p\<lparr>results := results p @ [ir], processed := processed p + 1\<rparr>) st1"
      have a: "inv n (done @ [m]) (upd (\<lambda>p. p\<lparr>success := success p + 1\<rparr>) ?st2)"
        unfolding upd_upd using lt u by (intro inv_upd_count[OF i1]) (auto simp: counted_def)
      have b: "inv n (done @ [m]) (upd (\<lambda>p. p\<lparr>failed := failed p + 1\<rparr>) ?st2)"
        unfolding upd_upd using lt u by (intro inv_upd_count[OF i1]) (auto simp: counted_def)
      have c: "inv n (done @ [m]) (upd (\<lambda>p. p\<lparr>skipped := skipped p + 1\<rparr>) ?st2)"
        unfolding upd_upd using lt u by (intro inv_upd_count[OF i1]) (auto simp: counted_def)
      show ?thesis
      proof (cases "r_status ir")
        case INVITE_PENDING
        then show ?thesis using s by simp
      next
        case INVITE_SUCCESS
        let ?st4 = "(upd (\<lambda>p. p\<lparr>success := success p + 1\<rparr>) ?st2)
                      \<lparr>current_user_ids := insert (user_id m) (current_user_ids st1)\<rparr>"
        obtain rd st5 where r5: "restore_member_info g e m ?st4 = (rd, st5)"
          by (cases "restore_member_info g e m ?st4")
        have "inv n (done @ [m]) ?st4" using a by simp
        then have "inv n (done @ [m]) st5"
          using inv_restore_member_info[of n "done @ [m]" ?st4 g e m] r5 by simp
        then have "inv n (done @ [m]) (callback_and_sleep cb e st5)"
          by (rule inv_callback_and_sleep)
        then show ?thesis using nb np r INVITE_SUCCESS r5
          by (simp add: process_member_def Let_def after_def)
      next
        case INVITE_FAILED
        have b1: "inv n (done @ [m]) (upd (\<lambda>p. p\<lparr>status := FAILED,
                      error_message := Some (r_message ir)\<rparr>) (upd (\<lambda>p. p\<lparr>failed := failed p + 1\<rparr>) ?st2))"
          using b by (auto simp: inv_def counted_def split: option.splits)
        have b2: "inv n (done @ [m]) (callback_and_sleep cb e (upd (\<lambda>p. p\<lparr>failed := failed p + 1\<rparr>) ?st2))"
          using b by (rule inv_callback_and_sleep)
        show ?thesis using nb np r INVITE_FAILED b1 b2
          by (simp add: process_member_def Let_def after_def)
      next
        case INVITE_SKIPPED
        have "inv n (done @ [m]) (callback_and_sleep cb e (upd (\<lambda>p. p\<lparr>skipped := skipped p + 1\<rparr>) ?st2))"
          using c by (rule inv_callback_and_sleep)
        then show ?thesis using nb np r INVITE_SKIPPED
          by (simp add: process_member_def Let_def after_def)
      qed
    qed
  qed
qed

lemma inv_rebuild_member:
  assumes i: "inv n done st" and lt: "length done < n"
    and r: "after (rebuild_member g b cb e m st) = Some st'"
  shows "(\<exists>s. rebuild_member g b cb e m st = Stop s) \<and> inv n done st' \<or> inv n (done @ [m]) st'"
proof (cases "cancelled_f (mgr st)")
  case True
  then show ?thesis using r inv_upd_status[OF i, of CANCELLED]
    by (simp add: rebuild_member_def after_def)
next
  case False
  show ?thesis
  proof (cases "wait_while_paused (pause_polls e) st")
    case None
    then show ?thesis using False r by (simp add: rebuild_member_def after_def)
  next
    case (Some st1)
    have "inv n done st1" using inv_wait_while_paused[OF i Some] .
    then obtain s where "after (process_member g b cb e m st1) = Some s" "inv n (done @ [m]) s"
      using inv_process_member[of n "done" st1 g b cb e m] lt by blast
    then show ?thesis using False Some r by (simp add: rebuild_member_def)
  qed
qed

lemma inv_rebuild_loop:
  "inv n done st \<Longrightarrow> length done + length ms \<le> n \<Longrightarrow>
   rebuild_loop g b cb envs i ms st = Some st' \<Longrightarrow> \<exists>j\<le>length ms. inv n (done @ take j ms) st'"
proof (induction ms arbitrary: "done" st i)
  case Nil
  then show ?case by simp
next
  case (Cons m ms)
  have lt: "length done < n" using Cons.prems(2) by simp
  show ?case
  proof (cases "rebuild_member g b cb (envs i) m st")
    case (Next s)
    then have "inv n (done @ [m]) s"
      using inv_rebuild_member[OF Cons.prems(1) lt, of g b cb "envs i" m s] by (simp add: after_def)
    moreover have "rebuild_loop g b cb envs (Suc i) ms s = Some st'"
      using Cons.prems(3) Next by simp
    ultimately obtain j where "j \<le> length ms" "inv n ((done @ [m]) @ take j ms) st'"
      using Cons.IH[of "done @ [m]" s "Suc i"] Cons.prems(2) by auto
    then show ?thesis by (intro exI[of _ "Suc j"]) simp
  next
    case (Stop s)
    then have "st' = s" using Cons.prems(3) by simp
    then have "inv n done st' \<or> inv n (done @ [m]) st'"
      using inv_rebuild_member[OF Cons.prems(1) lt, of g b cb "envs i" m s] Stop
      by (auto simp: after_def)
    then show ?thesis
    proof
      assume "inv n done st'"
      then show ?thesis by (intro exI[of _ 0]) simp
    next
      assume "inv n (done @ [m]) st'"
      then show ?thesis by (intro exI[of _ 1]) simp
    qed
  next
    case Hang
    then show ?thesis using Cons.prems(3) by simp
  qed
qed

lemma length_all_members: "length (all_members members) \<le> length members"
proof -
  have "length (filter (\<lambda>m. role m = ''member'') ms) + length (filter (\<lambda>m. role m = ''admin'') ms)
          \<le> length ms" for ms :: "BackupMember list"
    by (induction ms) auto
  then show ?thesis by (simp add: all_members_def Let_def)
qed

lemma inv_start: "inv (length members) [] (start self g members env)"
  by (simp add: start_def Let_def inv_def new_progress_def counted_def seen_ok_def
        apply_ctrls_progress)

lemma inv_finish: "inv n done st \<Longrightarrow> inv n done (finish g st)"
  by (auto simp: finish_def Let_def inv_def counted_def seen_ok_def split: option.splits)

text \<open>
  C1. In every run of \<open>_rebuild_group\<close> that returns, the final progress record and the
  record seen at every observation point (each remote call, each sleep, each callback)
  satisfy \<open>processed = success + failed + skipped\<close> and \<open>processed \<le> total\<close>, the total
  is \<open>len(members)\<close> throughout, and there is exactly one result per processed member:
  the results are those of the first \<open>processed\<close> members in processing order.
\<close>

theorem counter_invariant:
  assumes "rebuild_group self g members cb env = Some st"
  shows "\<exists>p. progress_f (mgr st) = Some p
           \<and> total_f p = length members
           \<and> processed p = success p + failed p + skipped p
           \<and> processed p \<le> total_f p
           \<and> map r_user_id (results p) = map user_id (take (processed p) (all_members members))
           \<and> (\<forall>ob \<in> set (trace st). \<exists>q. snd ob = Some q
                 \<and> total_f q = length members
                 \<and> processed q = success q + failed q + skipped q
                 \<and> processed q \<le> total_f q
                 \<and> length (results q) = processed q)"
proof -
  let ?n = "length members"
  obtain s where l: "rebuild_loop g (bot_of env) cb (member_envs env) 0 (all_members members)
                       (start self g members env) = Some s" and st: "st = finish g s"
    using assms by (auto simp: rebuild_group_def)
  obtain j where j: "inv ?n ([] @ take j (all_members members)) s"
    using inv_rebuild_loop[OF inv_start _ l] length_all_members[of members] by auto
  then have i: "inv ?n (take j (all_members members)) st" using st inv_finish by simp
  then obtain p where p: "progress_f (mgr st) = Some p"
      and c: "counted ?n (length (take j (all_members members))) p"
      and r: "map r_user_id (results p) = map user_id (take j (all_members members))"
      and t: "list_all (seen_ok ?n) (trace st)"
    by (auto simp: inv_def split: option.splits)
  have pj: "processed p = min j (length (all_members members))"
    using c by (auto simp: counted_def)
  have "take (processed p) (all_members members) = take j (all_members members)"
    unfolding pj by (cases "j \<le> length (all_members members)") (simp_all add: min_def)
  moreover have "\<forall>ob \<in> set (trace st). \<exists>q. snd ob = Some q
                 \<and> total_f q = ?n \<and> processed q = success q + failed q + skipped q
                 \<and> processed q \<le> total_f q \<and> length (results q) = processed q"
    using t by (auto simp: list_all_iff seen_ok_def counted_def split: option.splits)
  ultimately show ?thesis using p c r by (auto simp: counted_def)
qed

subsection \<open>Execution: steps that only wait\<close>

lemma benign_refl [simp]: "benign st st"
  by (simp add: benign_def)

lemma benign_trans: "benign a b \<Longrightarrow> benign b c \<Longrightarrow> benign a c"
  by (auto simp: benign_def)

lemma counts_apply_ctrls:
  "map_option counts (progress_f (apply_ctrls cs m)) = map_option counts (progress_f m)"
  by (cases "progress_f m") (simp_all add: apply_ctrls_progress counts_def)

lemma benign_await: "benign st (await ev cs st)"
  by (simp add: benign_def config_def counts_apply_ctrls)

lemma benign_observe: "benign st (observe ev st)"
  by (simp add: benign_def)

lemma benign_upd:
  assumes "\<And>p. counts (f p) = counts p"
  shows "benign st (upd f st)"
  using assms by (cases "progress_f (mgr st)") (simp_all add: benign_def config_def)

lemma benign_restore_card: "benign st (snd (restore_card g e m st))"
  by (simp add: restore_card_def Let_def benign_await split: sum.splits)

lemma benign_restore_title: "benign st (snd (restore_title g e m st))"
  by (simp add: restore_title_def Let_def benign_await split: sum.splits)

lemma benign_restore_admin: "benign st (snd (restore_admin g e m st))"
  by (simp add: restore_admin_def Let_def benign_await split: sum.splits)

lemma restore_member_info_snd:
  "snd (restore_member_info g e m st)
     = snd (restore_admin g e m (snd (restore_title g e m (snd (restore_card g e m st)))))"
  by (simp add: restore_member_info_def Let_def split: prod.splits)

lemma benign_restore_member_info: "benign st (snd (restore_member_info g e m st))"
  unfolding restore_member_info_snd
  by (rule benign_trans[OF benign_restore_card benign_trans[OF benign_restore_title benign_restore_admin]])

lemma benign_invite_member: "benign st (snd (invite_member g e m st))"
  by (simp add: invite_member_def Let_def benign_await split: sum.splits)

lemma benign_callback_and_sleep: "benign st (callback_and_sleep cb e st)"
  unfolding callback_and_sleep_def Let_def
  by (cases cb) (auto intro: benign_trans[OF benign_observe benign_await] benign_await)


lemma trace_callback_and_sleep:
  "map fst (trace (callback_and_sleep cb e st))
     = map fst (trace st) @ (if cb then [Callback] else []) @ [Sleep (invite_interval (mgr st))]"
  by (simp add: callback_and_sleep_def Let_def)

subsection \<open>Execution: sample runs\<close>

theorem counter_invariant_witness:
  "\<exists>st p. rebuild_group (manager True False False) 7 scenario_members True
             (quiet_env (Inr scenario_roster) [3]) = Some st
     \<and> progress_f (mgr st) = Some p \<and> total_f p = 3
     \<and> processed p = success p + failed p + skipped p \<and> processed p \<le> total_f p
     \<and> map r_user_id (results p) = map user_id (take (processed p) (all_members scenario_members))"
proof -
  have "outcomes (rebuild_group (manager True False False) 7 scenario_members True
          (quiet_env (Inr scenario_roster) [3])) \<noteq> None"
    by code_simp
  then obtain st where s: "rebuild_group (manager True False False) 7 scenario_members True
          (quiet_env (Inr scenario_roster) [3]) = Some st"
    by (auto simp: outcomes_def split: option.splits)
  from counter_invariant[OF s] show ?thesis using s by (auto simp: scenario_members_def)
qed

text \<open>
  C6. Two members, neither in the target group, both friends. \<open>pause\<close> is invoked during the
  sleep after member 1 and \<open>cancel\<close> during the first poll of the pause loop before member 2.
  The \<open>break\<close> leaves the pause loop only: member 2 is processed, its outcome is appended
  and its card is set; the job ends \<open>CANCELLED\<close> with \<open>processed = total\<close>.
\<close>

theorem cancel_while_paused:
  "outcomes (rebuild_group (manager True False False) 7 [bm 1 (Some ''A''), bm 2 (Some ''B'')] True
      ((quiet_env (Inr []) [1, 2])\<lparr>member_envs := pause_then_cancel [1, 2]\<rparr>))
   = Some (CANCELLED, 2, 2, [(1, INVITE_SUCCESS, msg_marked_for_invite),
        (2, INVITE_SUCCESS, msg_marked_for_invite)])
   \<and> events (rebuild_group (manager True False False) 7 [bm 1 (Some ''A''), bm 2 (Some ''B'')] True
      ((quiet_env (Inr []) [1, 2])\<lparr>member_envs := pause_then_cancel [1, 2]\<rparr>))
   = [Call (get_group_member_list 7 True), Call get_login_info,
      Call (send_group_msg 7 (start_notice 2)),
      Call get_friend_list, Call (set_group_card 7 1 ''A''), Callback, Sleep 6,
      Sleep 1,
      Call get_friend_list, Call (set_group_card 7 2 ''B''), Callback, Sleep 6,
      Call (send_group_msg 7 (done_notice 2 0 0))]"
  by code_simp

text \<open>
  C9. Member 2 of the scenario has the same card in the snapshot and in the live group.
  The dry run previews it as skipped, no change needed; the execution calls
  \<open>set_group_card\<close> for it with that card and records it as success.
\<close>

theorem restore_equal_card:
  "map view (changes (projr (snd (dry_run_rebuild (manager True False False) 7 [bm 2 (Some ''B'')]
        \<lparr>reply_members = Inr scenario_roster, reply_login = Inr (Some 99), reply_friends = Inr []\<rparr>))))
     = [(2, ''skip'', reason_in_group_no_change)]
   \<and> outcomes (rebuild_group (manager True False False) 7 [bm 2 (Some ''B'')] False
        (quiet_env (Inr scenario_roster) []))
     = Some (COMPLETED, 1, 1, [(2, INVITE_SUCCESS, msg_in_group_restored [card_restored ''B''])])
   \<and> events (rebuild_group (manager True False False) 7 [bm 2 (Some ''B'')] False
        (quiet_env (Inr scenario_roster) []))
     = [Call (get_group_member_list 7 True), Call get_login_info,
        Call (send_group_msg 7 (start_notice 1)), Call (set_group_card 7 2 ''B''),
        Call (send_group_msg 7 (done_notice 1 0 0))]"
  by code_simp


text \<open>
  C5 as stated fails: with a callback supplied, the bot itself (99) and a member already
  in the target group (1) are processed and counted, and the run invokes no callback and
  does not sleep.
\<close>

theorem no_callback_no_sleep:
  "outcomes (rebuild_group (manager True False False) 7 [bm 99 None, bm 1 (Some ''A'')] True
        (quiet_env (Inr scenario_roster) []))
     = Some (COMPLETED, 2, 2, [(99, INVITE_SKIPPED, msg_bot_self),
          (1, INVITE_SUCCESS, msg_in_group_restored [card_restored ''A''])])
   \<and> events (rebuild_group (manager True False False) 7 [bm 99 None, bm 1 (Some ''A'')] True
        (quiet_env (Inr scenario_roster) []))
     = [Call (get_group_member_list 7 True), Call get_login_info,
        Call (send_group_msg 7 (start_notice 2)), Call (set_group_card 7 1 ''A''),
        Call (send_group_msg 7 (done_notice 1 0 1))]"
  by code_simp


subsection \<open>Execution: accounting of one member\<close>

lemma accounted_counts:
  "counts p = counts p2 \<Longrightarrow> counts q = counts q2 \<Longrightarrow> accounted p r q \<Longrightarrow> accounted p2 r q2"
  by (simp add: accounted_def counts_def)

lemma benign_progress:
  assumes "benign a b" "progress_f (mgr a) = Some p"
  shows "\<exists>q. progress_f (mgr b) = Some q \<and> counts q = counts p"
  using assms by (auto simp: benign_def)

lemma benign_interval: "benign a b \<Longrightarrow> invite_interval (mgr b) = invite_interval (mgr a)"
  by (simp add: benign_def config_def)


lemma benign_ids_update:
  "benign a b \<Longrightarrow> benign a (b\<lparr>current_user_ids := current_user_ids a\<rparr>)"
  by (simp add: benign_def)

lemma process_member_accounted:
  assumes p: "progress_f (mgr st) = Some p"
    and a: "after (process_member g b cb e m st) = Some st'"
  shows "\<exists>p' r. progress_f (mgr st') = Some p' \<and> r_user_id r = user_id m \<and> accounted p r p'
           \<and> invite_interval (mgr st') = invite_interval (mgr st)"
proof -
  let ?st = "upd (\<lambda>p. p\<lparr>current_user := Some (user_id m)\<rparr>) st"
  have b0: "benign st ?st" by (rule benign_upd) (simp add: counts_def)
  show ?thesis
  proof (cases "Some (user_id m) = b")
    case True
    let ?r = "\<lparr>r_user_id = user_id m, r_nickname = nickname m, r_status = INVITE_SKIPPED,
               r_message = msg_bot_self\<rparr>"
    have "st' = upd (\<lambda>p. p\<lparr>skipped := skipped p + 1, processed := processed p + 1,
                   results := results p @ [?r]\<rparr>) ?st"
      using True a by (simp add: process_member_def Let_def after_def)
    then have "progress_f (mgr st') = Some (p\<lparr>current_user := Some (user_id m),
                 skipped := skipped p + 1, processed := processed p + 1,
                 results := results p @ [?r]\<rparr>)"
        and "invite_interval (mgr st') = invite_interval (mgr st)"
      using p by simp_all
    then show ?thesis
      by (intro exI[of _ "p\<lparr>current_user := Some (user_id m),
                 skipped := skipped p + 1, processed := processed p + 1,
                 results := results p @ [?r]\<rparr>"] exI[of _ ?r]) (simp add: accounted_def)
  next
    case nb: False
    show ?thesis
    proof (cases "user_id m \<in> current_user_ids st")
      case True
      obtain rd st1 where r: "restore_member_info g e m ?st = (rd, st1)"
        by (cases "restore_member_info g e m ?st")
      have b1: "benign st st1"
        using benign_trans[OF b0 benign_restore_member_info[of ?st g e m]] r by simp
      obtain q where q: "progress_f (mgr st1) = Some q" "counts q = counts p"
        using benign_progress[OF b1 p] by blast
      let ?r1 = "\<lparr>r_user_id = user_id m, r_nickname = nickname m, r_status = INVITE_SUCCESS,
                  r_message = msg_in_group_restored rd\<rparr>"
      let ?r2 = "\<lparr>r_user_id = user_id m, r_nickname = nickname m, r_status = INVITE_SKIPPED,
                  r_message = msg_in_group_no_change\<rparr>"
      let ?f1 = "\<lambda>p. p\<lparr>success := success p + 1, processed := processed p + 1,
                   results := results p @ [?r1]\<rparr>"
      let ?f2 = "\<lambda>p. p\<lparr>skipped := skipped p + 1, processed := processed p + 1,
                   results := results p @ [?r2]\<rparr>"
      have i1: "invite_interval (mgr st1) = invite_interval (mgr st)"
        using benign_interval[OF b1] .
      show ?thesis
      proof (cases "rd = []")
        case False
        then have "st' = upd ?f1 st1"
          using nb True r a by (simp add: process_member_def Let_def after_def)
        then have "progress_f (mgr st') = Some (?f1 q)"
            and "invite_interval (mgr st') = invite_interval (mgr st)"
          using q i1 by simp_all
        moreover have "accounted p ?r1 (?f1 q)" using q(2) by (simp add: accounted_def counts_def)
        ultimately show ?thesis by (intro exI[of _ "?f1 q"] exI[of _ ?r1]) simp
      next
        case e: True
        then have "st' = upd ?f2 st1"
          using nb True r a by (simp add: process_member_def Let_def after_def)
        then have "progress_f (mgr st') = Some (?f2 q)"
            and "invite_interval (mgr st') = invite_interval (mgr st)"
          using q i1 by simp_all
        moreover have "accounted p ?r2 (?f2 q)" using q(2) by (simp add: accounted_def counts_def)
        ultimately show ?thesis by (intro exI[of _ "?f2 q"] exI[of _ ?r2]) simp
      qed
    next
      case np: False
      obtain ir st1 where r: "invite_member g e m ?st = (ir, st1)"
        by (cases "invite_member g e m ?st")
      have b1: "benign st st1"
        using benign_trans[OF b0 benign_invite_member[of ?st g e m]] r by simp
      obtain q where q: "progress_f (mgr st1) = Some q" "counts q = counts p"
        using benign_progress[OF b1 p] by blast
      have u: "r_user_id ir = user_id m" using invite_member_result(1)[of g e m ?st] r by simp
      have s: "r_status ir \<noteq> INVITE_PENDING" using invite_member_result(2)[of g e m ?st] r by simp
      let ?st2 = "upd (\<lambda>p. p\<lparr>results := results p @ [ir], processed := processed p + 1\<rparr>) st1"
      show ?thesis
      proof (cases "r_status ir")
        case INVITE_PENDING
        then show ?thesis using s by simp
      next
        case INVITE_SUCCESS
        let ?st4 = "(upd (\<lambda>p. p\<lparr>success := success p + 1\<rparr>) ?st2)
                      \<lparr>current_user_ids := insert (user_id m) (current_user_ids st1)\<rparr>"
        obtain rd st5 where r5: "restore_member_info g e m ?st4 = (rd, st5)"
          by (cases "restore_member_info g e m ?st4")
        have st': "st' = callback_and_sleep cb e st5"
          using nb np r INVITE_SUCCESS r5 a by (simp add: process_member_def Let_def after_def)
        have "benign ?st4 st5" using benign_restore_member_info[of ?st4 g e m] r5 by simp
        then have b5: "benign ?st4 st'"
          using benign_trans[OF _ benign_callback_and_sleep[of st5 cb e]] st' by simp
        have p4: "progress_f (mgr ?st4) = Some (q\<lparr>results := results q @ [ir],
                     processed := processed q + 1, success := success q + 1\<rparr>)"
          using q by simp
        obtain q' where q': "progress_f (mgr st') = Some q'"
            "counts q' = counts (q\<lparr>results := results q @ [ir],
                     processed := processed q + 1, success := success q + 1\<rparr>)"
          using benign_progress[OF b5 p4] by blast
        have "accounted p ir q'" using q q' INVITE_SUCCESS by (simp add: accounted_def counts_def)
        moreover have "invite_interval (mgr st') = invite_interval (mgr st)"
          using benign_interval[OF b5] benign_interval[OF b1] by simp
        ultimately show ?thesis using q' u by blast
      next
        case INVITE_FAILED
        let ?st3 = "upd (\<lambda>p. p\<lparr>failed := failed p + 1\<rparr>) ?st2"
        have p3: "progress_f (mgr ?st3) = Some (q\<lparr>results := results q @ [ir],
                     processed := processed q + 1, failed := failed q + 1\<rparr>)"
          using q by simp
        have i3: "invite_interval (mgr ?st3) = invite_interval (mgr st)"
          using benign_interval[OF b1] by simp
        have "benign ?st3 st'"
        proof (cases "continue_on_error (mgr st1)")
          case True
          then have "st' = callback_and_sleep cb e ?st3"
            using nb np r INVITE_FAILED a by (simp add: process_member_def Let_def after_def)
          then show ?thesis by (simp add: benign_callback_and_sleep)
        next
          case False
          then have "st' = upd (\<lambda>p. p\<lparr>status := FAILED,
                       error_message := Some (r_message ir)\<rparr>) ?st3"
            using nb np r INVITE_FAILED a by (simp add: process_member_def Let_def after_def)
          then show ?thesis using benign_upd[of "\<lambda>p. p\<lparr>status := FAILED,
                       error_message := Some (r_message ir)\<rparr>" ?st3]
            by (simp add: counts_def)
        qed
        then obtain q' where q': "progress_f (mgr st') = Some q'"
            "counts q' = counts (q\<lparr>results := results q @ [ir],
                     processed := processed q + 1, failed := failed q + 1\<rparr>)"
            and i': "invite_interval (mgr st') = invite_interval (mgr ?st3)"
          using benign_progress[OF _ p3] benign_interval by blast
        have "accounted p ir q'" using q q' INVITE_FAILED by (simp add: accounted_def counts_def)
        then show ?thesis using q' u i' i3 by auto
      next
        case INVITE_SKIPPED
        let ?st3 = "upd (\<lambda>p. p\<lparr>skipped := skipped p + 1\<rparr>) ?st2"
        have p3: "progress_f (mgr ?st3) = Some (q\<lparr>results := results q @ [ir],
                     processed := processed q + 1, skipped := skipped q + 1\<rparr>)"
          using q by simp
        have i3: "invite_interval (mgr ?st3) = invite_interval (mgr st)"
          using benign_interval[OF b1] by simp
        have "st' = callback_and_sleep cb e ?st3"
          using nb np r INVITE_SKIPPED a by (simp add: process_member_def Let_def after_def)
        then have "benign ?st3 st'" by (simp add: benign_callback_and_sleep)
        then obtain q' where q': "progress_f (mgr st') = Some q'"
            "counts q' = counts (q\<lparr>results := results q @ [ir],
                     processed := processed q + 1, skipped := skipped q + 1\<rparr>)"
            and i': "invite_interval (mgr st') = invite_interval (mgr ?st3)"
          using benign_progress[OF _ p3] benign_interval by blast
        have "accounted p ir q'" using q q' INVITE_SKIPPED by (simp add: accounted_def counts_def)
        then show ?thesis using q' u i' i3 by auto
      qed
    qed
  qed
qed

text \<open>An iteration that reaches the bottom of the loop body ends with callback and sleep.\<close>

lemma process_member_tail:
  assumes "Some (user_id m) \<noteq> b" "user_id m \<notin> current_user_ids st"
    and "process_member g b cb e m st = Next st'"
  shows "\<exists>pre. map fst (trace st') = pre @ (if cb then [Callback] else [])
           @ [Sleep (invite_interval (mgr st'))]"
proof -
  have "\<exists>s. st' = callback_and_sleep cb e s"
    using assms by (auto simp: process_member_def Let_def split: prod.splits if_splits)
  then obtain s where s: "st' = callback_and_sleep cb e s" by blast
  have "invite_interval (mgr st') = invite_interval (mgr s)"
    using benign_interval[OF benign_callback_and_sleep[of s cb e]] s by simp
  then show ?thesis using trace_callback_and_sleep[of cb e s] s by auto
qed

lemma init_interval:
  "init ipm ra rc rt w ce = Inr self \<Longrightarrow>
     invite_interval self = 60 / of_int (invites_per_minute self)"
  by (auto simp: init_def split: if_splits)

text \<open>
  C5 (amended). In execution mode every processed member appends its result, increments
  \<open>processed\<close> by one and the counter matching its outcome by one. A member that is neither
  the bot itself nor already in the target group, and whose attempt does not abort the
  job, is followed by one invocation of the progress callback, if one was supplied, and
  by a sleep of \<open>60 / invites_per_minute\<close> seconds. (For the bot itself and for a member
  already in the target group nothing is stated about callback and sleep.)
\<close>

theorem member_accounting:
  assumes "progress_f (mgr st) = Some p"
    and "invite_interval (mgr st) = 60 / of_int (invites_per_minute (mgr st))"
    and "after (process_member g b cb e m st) = Some st'"
  shows "\<exists>p' r. progress_f (mgr st') = Some p' \<and> r_user_id r = user_id m
           \<and> results p' = results p @ [r] \<and> processed p' = processed p + 1
           \<and> success p' = success p + (if r_status r = INVITE_SUCCESS then 1 else 0)
           \<and> failed p' = failed p + (if r_status r = INVITE_FAILED then 1 else 0)
           \<and> skipped p' = skipped p + (if r_status r = INVITE_SKIPPED then 1 else 0)
           \<and> (Some (user_id m) \<noteq> b \<and> user_id m \<notin> current_user_ids st
                \<and> process_member g b cb e m st = Next st' \<longrightarrow>
               (\<exists>pre. map fst (trace st') = pre @ (if cb then [Callback] else [])
                    @ [Sleep (60 / of_int (invites_per_minute (mgr st)))]))"
proof -
  obtain p' r where 1: "progress_f (mgr st') = Some p'" "r_user_id r = user_id m"
      "accounted p r p'" "invite_interval (mgr st') = invite_interval (mgr st)"
    using process_member_accounted[OF assms(1,3)] by blast
  have "\<exists>pre. map fst (trace st') = pre @ (if cb then [Callback] else [])
           @ [Sleep (60 / of_int (invites_per_minute (mgr st)))]"
    if "Some (user_id m) \<noteq> b" "user_id m \<notin> current_user_ids st"
       "process_member g b cb e m st = Next st'"
    using process_member_tail[OF that] 1(4) assms(2) by simp
  then show ?thesis using 1(1,2,3) unfolding accounted_def by blast
qed

theorem member_accounting_witness:
  "\<exists>st' p'. process_member 7 (Some 99) True (quiet_member [3]) (bm 3 (Some ''C''))
               (start (manager True False False) 7 [bm 3 (Some ''C'')] (quiet_env (Inr []) [3]))
             = Next st'
     \<and> progress_f (mgr st') = Some p' \<and> processed p' = 1 \<and> success p' = 1
     \<and> failed p' = 0 \<and> skipped p' = 0 \<and> map r_user_id (results p') = [3]
     \<and> (\<exists>pre. map fst (trace st') = pre @ [Callback, Sleep 6])"
proof -
  let ?st = "start (manager True False False) 7 [bm 3 (Some ''C'')] (quiet_env (Inr []) [3])"
  let ?pm = "process_member 7 (Some 99) True (quiet_member [3]) (bm 3 (Some ''C'')) ?st"
  have p: "progress_f (mgr ?st) = Some (new_progress 1)"
    by (simp add: start_def Let_def manager_def quiet_env_def ok_def apply_ctrls_def)
  have i: "invite_interval (mgr ?st) = 60 / of_int (invites_per_minute (mgr ?st))"
    by (simp add: start_def Let_def manager_def quiet_env_def ok_def apply_ctrls_def)
  have ids: "current_user_ids ?st = {}"
    by (simp add: start_def Let_def manager_def quiet_env_def ok_def)
  have ipm: "invites_per_minute (mgr ?st) = 10"
    by (simp add: start_def Let_def manager_def quiet_env_def ok_def apply_ctrls_def)
  have "case ?pm of Next s \<Rightarrow> map_option (\<lambda>p. map r_status (results p)) (progress_f (mgr s))
                               = Some [INVITE_SUCCESS]
        | Stop s \<Rightarrow> False | Hang \<Rightarrow> False"
    by code_simp
  then obtain st' where n: "?pm = Next st'"
      and s: "map_option (\<lambda>p. map r_status (results p)) (progress_f (mgr st')) = Some [INVITE_SUCCESS]"
    by (auto split: flow.splits)
  then have a: "after ?pm = Some st'" by (simp add: after_def)
  obtain p' r where r: "progress_f (mgr st') = Some p'" "r_user_id r = user_id (bm 3 (Some ''C''))"
      "results p' = results (new_progress 1) @ [r]" "processed p' = processed (new_progress 1) + 1"
      "success p' = success (new_progress 1) + (if r_status r = INVITE_SUCCESS then 1 else 0)"
      "failed p' = failed (new_progress 1) + (if r_status r = INVITE_FAILED then 1 else 0)"
      "skipped p' = skipped (new_progress 1) + (if r_status r = INVITE_SKIPPED then 1 else 0)"
      "\<exists>pre. map fst (trace st') = pre @ (if True then [Callback] else [])
                    @ [Sleep (60 / of_int (invites_per_minute (mgr ?st)))]"
    using member_accounting[OF p i a] n ids by (auto simp: bm_def)
  from s have "r_status r = INVITE_SUCCESS" using r(1,3) by (simp add: new_progress_def)
  then show ?thesis using n r ipm by (auto simp: new_progress_def bm_def)
qed

subsection \<open>Execution: status\<close>

lemma apply_ctrls_nil [simp]: "apply_ctrls [] m = m"
  by (simp add: apply_ctrls_def)
















subsection \<open>Execution: failed roster fetch\<close>



lemma benign_results:
  "benign a b \<Longrightarrow> map_option results (progress_f (mgr b)) = map_option results (progress_f (mgr a))"
  by (cases "progress_f (mgr a)"; cases "progress_f (mgr b)") (auto simp: benign_def counts_def)

















end
